theory Spec2Isabelle
  imports Complex_Main "HOL-Library.Char_ord" "HOL-Library.List_Lexorder"
begin

section \<open>Batch images to A4 PDF: the layout and pagination of create_a4_pdf\<close>

text \<open>
  The development embeds \<^verbatim>\<open>batch_images_to_a4_pdf_with_logging.py\<close>. Lengths are exact
  rationals (the source computes them in floating point), indices and counts are natural
  numbers, paths are strings ordered as Python orders \<^verbatim>\<open>str\<close> (lexicographically by
  character code). Everything the script asks of the outside world (the file system, Pillow,
  the reportlab canvas, the clock) is read from an explicit environment record, and
  everything it does to the outside world (log calls, directories, the saved document) is
  written to an explicit world record that is passed through.
\<close>

subsection \<open>Logging\<close>

datatype level = DEBUG | INFO | WARNING | ERROR | CRITICAL

text \<open>One constructor per logging call of the source, carrying the values it formats.\<close>

datatype event =
    PagesPlanned nat
  | PageStart nat nat
  | FileMissing string
  | ImageAdded string
  | ImageError string
  | PdfGenerated string
  | PdfError string
  | OutputDir string
  | FoundExt nat string
  | FoundTotal string nat
  | NoImages
  | ProcessingAll nat
  | BatchDone
  | BatchError

type_synonym log = "(level \<times> event) list"

subsection \<open>The outside world\<close>

text \<open>
  What \<^verbatim>\<open>os.path.exists\<close>, \<^verbatim>\<open>Image.open\<close>, \<^verbatim>\<open>img.verify\<close> and \<^verbatim>\<open>c.drawImage\<close> find at a path:
  nothing, a file that does not open or verify, or an image of a given pixel width and
  height whose drawing succeeds or raises.
\<close>

datatype source = Absent | Corrupt | Img int int bool

record env =
  isdir :: "string \<Rightarrow> bool"
  makedirs_ok :: "string \<Rightarrow> bool"
  glob_files :: "string \<Rightarrow> string list"
  now :: string
  source_of :: "string \<Rightarrow> source"
  string_width :: "string \<Rightarrow> rat"
  canvas_ok :: "string \<Rightarrow> bool"
  save_ok :: "string \<Rightarrow> bool"

text \<open>
  One image on a page: the local variables of the loop body at the \<^verbatim>\<open>drawImage\<close> and
  \<^verbatim>\<open>drawString\<close> calls.
\<close>

record drawn =
  d_path :: string
  d_index :: nat
  d_row :: nat
  d_col :: nat
  d_x :: rat
  d_y :: rat
  d_img_x :: rat
  d_img_y :: rat
  d_width :: rat
  d_height :: rat
  d_text :: string
  d_text_x :: rat
  d_text_y :: rat

type_synonym page = "drawn list"

record world =
  w_log :: log
  w_dirs :: "string list"
  w_files :: "(string \<times> page list) list"

definition logging :: "level \<Rightarrow> event \<Rightarrow> world \<Rightarrow> world" where
  "logging l ev w = w\<lparr>w_log := w_log w @ [(l, ev)]\<rparr>"

subsection \<open>Page geometry\<close>

text \<open>
  reportlab's \<^verbatim>\<open>A4\<close> is \<^verbatim>\<open>(210*mm, 297*mm)\<close> with \<^verbatim>\<open>mm = 72/25.4\<close> points.
\<close>

definition mm :: rat where
  "mm = 72 / (254 / 10)"

definition A4 :: "rat \<times> rat" where
  "A4 = (210 * mm, 297 * mm)"

definition margin :: rat where
  "margin = 40"

definition inner_margin :: rat where
  "inner_margin = 20"

definition images_per_page :: nat where
  "images_per_page = 6"

text \<open>
  Lines 76--81 and 133--135 of the source with the page size and the two margins as
  arguments: the cell's lower left corner and its size.
\<close>

definition computeCellBox ::
  "rat \<Rightarrow> rat \<Rightarrow> rat \<Rightarrow> rat \<Rightarrow> nat \<Rightarrow> nat \<Rightarrow> rat \<times> rat \<times> rat \<times> rat" where
  "computeCellBox pageWidth pageHeight m im row col =
     (let effective_width = pageWidth - 2 * m;
          effective_height = pageHeight - 2 * m;
          img_width = (effective_width - im) / 2;
          img_height = (effective_height - 2 * im) / 3;
          x = m + of_nat col * (img_width + im);
          y = pageHeight - m - (of_nat row + 1) * img_height - of_nat row * im
      in (x, y, img_width, img_height))"

datatype py_error = ZeroDivisionError

text \<open>
  Lines 115--127 and the two centring terms of lines 140--141. Python's \<^verbatim>\<open>/\<close> raises
  on a zero divisor; the divisions are taken in the order of the source.
\<close>

definition computePlacement ::
  "rat \<Rightarrow> rat \<Rightarrow> rat \<Rightarrow> rat \<Rightarrow> py_error + rat \<times> rat \<times> rat" where
  "computePlacement imgWidth imgHeight cellWidth cellHeight =
     (if imgHeight = 0 then Inl ZeroDivisionError
      else if cellHeight = 0 then Inl ZeroDivisionError
      else
        let img_ratio = imgWidth / imgHeight;
            target_ratio = cellWidth / cellHeight
        in if img_ratio > target_ratio \<and> imgWidth = 0 then Inl ZeroDivisionError
           else
             let scale = (if img_ratio > target_ratio then cellWidth / imgWidth
                          else cellHeight / imgHeight);
                 new_width = imgWidth * scale;
                 new_height = imgHeight * scale
             in Inr (scale, (cellWidth - new_width) / 2, (cellHeight - new_height) / 2))"

subsection \<open>Paths\<close>

text \<open>\<^verbatim>\<open>os.path.basename\<close> and \<^verbatim>\<open>os.path.join\<close> for two POSIX paths.\<close>

definition basename :: "string \<Rightarrow> string" where
  "basename p = rev (takeWhile (\<lambda>c. c \<noteq> CHR ''/'') (rev p))"

definition path_join :: "string \<Rightarrow> string \<Rightarrow> string" where
  "path_join a b =
     (if b \<noteq> [] \<and> hd b = CHR ''/'' then b
      else if a = [] \<or> last a = CHR ''/'' then a @ b
      else a @ ''/'' @ b)"

subsection \<open>Pagination\<close>

text \<open>A Python slice \<^verbatim>\<open>xs[start:end]\<close> with indices that are not negative.\<close>

definition slice :: "'a list \<Rightarrow> nat \<Rightarrow> nat \<Rightarrow> 'a list" where
  "slice xs start end = take (end - start) (drop start xs)"

definition total_pages_of :: "nat \<Rightarrow> nat" where
  "total_pages_of total_images = (total_images + images_per_page - 1) div images_per_page"

definition page_images_of :: "'a list \<Rightarrow> nat \<Rightarrow> 'a list" where
  "page_images_of image_paths page_num =
     (let total_images = length image_paths;
          start_idx = page_num * images_per_page;
          end_idx = min ((page_num + 1) * images_per_page) total_images
      in slice image_paths start_idx end_idx)"

subsection \<open>The canvas and the iteration of create_a4_pdf\<close>

text \<open>
  The canvas holds the pages closed so far and the page being drawn; \<^verbatim>\<open>showPage\<close> closes
  the current page and opens an empty one.
\<close>

record canvas =
  c_done :: "page list"
  c_cur :: page

definition new_canvas :: canvas where
  "new_canvas = \<lparr>c_done = [], c_cur = []\<rparr>"

definition showPage :: "canvas \<Rightarrow> canvas" where
  "showPage c = \<lparr>c_done = c_done c @ [c_cur c], c_cur = []\<rparr>"

text \<open>
  reportlab's \<^verbatim>\<open>Canvas.save\<close> closes the current page only when something has been drawn
  on it (\<^verbatim>\<open>if len(self._code): self.showPage()\<close>) and then writes the closed pages: a
  last page on which every entry was skipped is not part of the document.
\<close>

definition save :: "canvas \<Rightarrow> page list" where
  "save c = (if c_cur c \<noteq> [] then c_done (showPage c) else c_done c)"

datatype skip = NotExists | Raised

text \<open>
  The body of the inner \<^verbatim>\<open>try\<close> for the entry \<^verbatim>\<open>img_path\<close> with enumeration index \<^verbatim>\<open>i\<close>:
  either the entry is given up (the file does not exist, or some call raised), or the
  image and its caption are drawn.
\<close>

definition place_image :: "env \<Rightarrow> nat \<Rightarrow> string \<Rightarrow> skip + drawn" where
  "place_image e i img_path =
     (case source_of e img_path of
        Absent \<Rightarrow> Inl NotExists
      | Corrupt \<Rightarrow> Inl Raised
      | Img width height draws \<Rightarrow>
          let col = i mod 2;
              row = i div 2;
              (x, y, img_width, img_height) =
                 computeCellBox (fst A4) (snd A4) margin inner_margin row col
          in (case computePlacement (of_int width) (of_int height) img_width img_height of
                Inl err \<Rightarrow> Inl Raised
              | Inr (scale, offsetX, offsetY) \<Rightarrow>
                  if \<not> draws then Inl Raised
                  else
                    let img_filename = basename img_path;
                        text_width = string_width e img_filename
                    in Inr \<lparr>d_path = img_path, d_index = i, d_row = row, d_col = col,
                            d_x = x, d_y = y,
                            d_img_x = x + offsetX, d_img_y = y + offsetY,
                            d_width = of_int width * scale, d_height = of_int height * scale,
                            d_text = img_filename,
                            d_text_x = x + (img_width - text_width) / 2,
                            d_text_y = y - 15\<rparr>))"

text \<open>
  \<^verbatim>\<open>for i, img_path in enumerate(page_images)\<close>: the index advances with every entry,
  placed or not.
\<close>

fun images_loop :: "env \<Rightarrow> nat \<Rightarrow> string list \<Rightarrow> canvas \<times> world \<Rightarrow> canvas \<times> world" where
  "images_loop e i [] cw = cw"
| "images_loop e i (img_path # rest) (c, w) =
     images_loop e (Suc i) rest
       (case place_image e i img_path of
          Inl NotExists \<Rightarrow> (c, logging WARNING (FileMissing img_path) w)
        | Inl Raised \<Rightarrow> (c, logging ERROR (ImageError img_path) w)
        | Inr d \<Rightarrow> (c\<lparr>c_cur := c_cur c @ [d]\<rparr>,
                    logging DEBUG (ImageAdded (basename img_path)) w))"

text \<open>\<^verbatim>\<open>for page_num in range(total_pages)\<close>, run over the list of page numbers.\<close>

fun pages_loop ::
  "env \<Rightarrow> string list \<Rightarrow> nat \<Rightarrow> nat list \<Rightarrow> canvas \<times> world \<Rightarrow> canvas \<times> world" where
  "pages_loop e image_paths total_pages [] cw = cw"
| "pages_loop e image_paths total_pages (page_num # rest) (c, w) =
     (let page_images = page_images_of image_paths page_num;
          w1 = logging DEBUG (PageStart (page_num + 1) (length page_images)) w;
          (c2, w2) = images_loop e 0 page_images (c, w1);
          c3 = (if page_num < total_pages - 1 then showPage c2 else c2)
      in pages_loop e image_paths total_pages rest (c3, w2))"

text \<open>
  \<^verbatim>\<open>create_a4_pdf\<close>. Creating the canvas and saving it are the two calls outside the
  inner \<^verbatim>\<open>try\<close> that can raise; either failure is logged and gives \<^verbatim>\<open>False\<close>. Saving
  writes the pages of the canvas to \<^verbatim>\<open>output_pdf\<close>.
\<close>

definition create_a4_pdf :: "env \<Rightarrow> string list \<Rightarrow> string \<Rightarrow> world \<Rightarrow> bool \<times> world" where
  "create_a4_pdf e image_paths output_pdf w =
     (if \<not> canvas_ok e output_pdf then (False, logging ERROR (PdfError output_pdf) w)
      else
        let total_images = length image_paths;
            total_pages = total_pages_of total_images;
            w1 = logging INFO (PagesPlanned total_pages) w;
            (c, w2) = pages_loop e image_paths total_pages [0..<total_pages] (new_canvas, w1)
        in if \<not> save_ok e output_pdf then (False, logging ERROR (PdfError output_pdf) w2)
           else (True, logging INFO (PdfGenerated output_pdf)
                         (w2\<lparr>w_files := w_files w2 @ [(output_pdf, save c)]\<rparr>)))"

subsection \<open>batch_process_folder\<close>

definition default_extensions :: "string list" where
  "default_extensions = [''*.jpg'', ''*.jpeg'', ''*.png'', ''*.gif'', ''*.bmp'']"

text \<open>\<^verbatim>\<open>for ext in image_extensions\<close>: the files found are appended in the order of the patterns.\<close>

fun glob_loop :: "env \<Rightarrow> string \<Rightarrow> string list \<Rightarrow> string list \<times> world \<Rightarrow> string list \<times> world" where
  "glob_loop e input_folder [] fw = fw"
| "glob_loop e input_folder (ext # rest) (image_files, w) =
     (let found_files = glob_files e (path_join input_folder ext)
      in glob_loop e input_folder rest
           (image_files @ found_files, logging DEBUG (FoundExt (length found_files) ext) w))"

text \<open>
  \<^verbatim>\<open>batch_process_folder\<close>. The result of \<^verbatim>\<open>create_a4_pdf\<close> is not bound to any name:
  the call is a statement, and the function goes on to log completion and return
  \<^verbatim>\<open>True\<close>.
\<close>

definition batch_process_folder ::
  "env \<Rightarrow> string \<Rightarrow> string option \<Rightarrow> string list \<Rightarrow> world \<Rightarrow> bool \<times> world" where
  "batch_process_folder e input_folder output_folder image_extensions w =
     (if \<not> isdir e input_folder then (False, logging ERROR BatchError w)
      else
        let output_folder' = (case output_folder of
                                None \<Rightarrow> path_join input_folder ''pdf_output''
                              | Some d \<Rightarrow> d)
        in if \<not> makedirs_ok e output_folder' then (False, logging ERROR BatchError w)
           else
             let w1 = logging INFO (OutputDir output_folder')
                        (w\<lparr>w_dirs := w_dirs w @ [output_folder']\<rparr>);
                 (found, w2) = glob_loop e input_folder image_extensions ([], w1);
                 image_files = sort found;
                 total_images = length image_files;
                 w3 = logging INFO (FoundTotal input_folder total_images) w2
             in if total_images = 0 then (False, logging WARNING NoImages w3)
                else
                  let pdf_filename = ''images_'' @ now e @ ''.pdf'';
                      pdf_path = path_join output_folder' pdf_filename;
                      w4 = logging INFO (ProcessingAll total_images) w3;
                      (ok, w5) = create_a4_pdf e image_files pdf_path w4
                  in (True, logging INFO BatchDone w5))"

subsection \<open>What is observed of a run\<close>

text \<open>
  The images the inner loop adds to the current page, for a page slice enumerated from
  \<^verbatim>\<open>i\<close>: the same traversal as \<^verbatim>\<open>images_loop\<close>, keeping only the drawn items.
\<close>

fun drawn_items :: "env \<Rightarrow> nat \<Rightarrow> string list \<Rightarrow> page" where
  "drawn_items e i [] = []"
| "drawn_items e i (img_path # rest) =
     (case place_image e i img_path of Inl s \<Rightarrow> [] | Inr d \<Rightarrow> [d]) @ drawn_items e (Suc i) rest"

text \<open>
  An entry the loop body gets through: the file exists, opens and verifies, its height is
  not zero (the ratio \<^verbatim>\<open>img.width / img.height\<close> is defined) and drawing does not raise.
\<close>

definition placeable :: "env \<Rightarrow> string \<Rightarrow> bool" where
  "placeable e img_path =
     (case source_of e img_path of
        Absent \<Rightarrow> False
      | Corrupt \<Rightarrow> False
      | Img width height draws \<Rightarrow> draws \<and> height \<noteq> 0)"

text \<open>The pages of the document that a call saved last, if it saved one.\<close>

definition written_pages :: "bool \<times> world \<Rightarrow> page list" where
  "written_pages r = (if w_files (snd r) = [] then [] else snd (last (w_files (snd r))))"

text \<open>
  The items drawn on page \<^verbatim>\<open>p\<close> (counted from 0) of a document: none when the document has
  no such page.
\<close>

definition page_at :: "page list \<Rightarrow> nat \<Rightarrow> page" where
  "page_at pages p = (if p < length pages then pages ! p else [])"

text \<open>
  The one logging call that the loop body makes for the entry \<^verbatim>\<open>img_path\<close> with enumeration
  index \<^verbatim>\<open>i\<close>, and the logging calls of one page: the page's announcement with the length
  of its slice, then one call per entry of the slice, in order.
\<close>

definition entry_event :: "env \<Rightarrow> nat \<times> string \<Rightarrow> level \<times> event" where
  "entry_event e ip =
     (case ip of (i, img_path) \<Rightarrow>
        (case place_image e i img_path of
           Inl NotExists \<Rightarrow> (WARNING, FileMissing img_path)
         | Inl Raised \<Rightarrow> (ERROR, ImageError img_path)
         | Inr d \<Rightarrow> (DEBUG, ImageAdded (basename img_path))))"

definition page_events :: "env \<Rightarrow> string list \<Rightarrow> nat \<Rightarrow> log" where
  "page_events e image_paths page_num =
     (DEBUG, PageStart (page_num + 1) (length (page_images_of image_paths page_num)))
       # map (entry_event e) (enumerate 0 (page_images_of image_paths page_num))"

definition slot_of :: "drawn \<Rightarrow> string \<times> nat \<times> nat \<times> nat" where
  "slot_of d = (d_path d, d_index d, d_row d, d_col d)"

definition index_path :: "drawn \<Rightarrow> nat \<times> string" where
  "index_path d = (d_index d, d_path d)"

definition cell_of :: "drawn \<Rightarrow> nat \<times> nat" where
  "cell_of d = (d_row d, d_col d)"

subsection \<open>Boxes on the page\<close>

text \<open>
  A box \<^verbatim>\<open>(x, y, w, h)\<close> is the closed rectangle from \<^verbatim>\<open>(x, y)\<close> to \<^verbatim>\<open>(x + w, y + h)\<close>.
  It lies within the effective drawing area when both corners do; two boxes are disjoint
  when a vertical or a horizontal line separates them strictly, so that they share no point.
\<close>

definition grid_cells :: "(nat \<times> nat) list" where
  "grid_cells = [(0, 0), (0, 1), (1, 0), (1, 1), (2, 0), (2, 1)]"

definition in_area :: "rat \<Rightarrow> rat \<Rightarrow> rat \<Rightarrow> rat \<Rightarrow> rat \<Rightarrow> bool" where
  "in_area pageWidth pageHeight m px py =
     (m \<le> px \<and> px \<le> pageWidth - m \<and> m \<le> py \<and> py \<le> pageHeight - m)"

definition box_within :: "rat \<Rightarrow> rat \<Rightarrow> rat \<Rightarrow> rat \<times> rat \<times> rat \<times> rat \<Rightarrow> bool" where
  "box_within pageWidth pageHeight m box =
     (case box of (x, y, w, h) \<Rightarrow>
        in_area pageWidth pageHeight m x y \<and> in_area pageWidth pageHeight m (x + w) (y + h))"

definition boxes_disjoint :: "rat \<times> rat \<times> rat \<times> rat \<Rightarrow> rat \<times> rat \<times> rat \<times> rat \<Rightarrow> bool" where
  "boxes_disjoint b1 b2 =
     (case b1 of (x1, y1, w1, h1) \<Rightarrow>
      case b2 of (x2, y2, w2, h2) \<Rightarrow>
        x1 + w1 < x2 \<or> x2 + w2 < x1 \<or> y1 + h1 < y2 \<or> y2 + h2 < y1)"

definition cells_within :: "rat \<Rightarrow> rat \<Rightarrow> rat \<Rightarrow> rat \<Rightarrow> bool" where
  "cells_within pageWidth pageHeight m im =
     list_all (\<lambda>(row, col).
        box_within pageWidth pageHeight m (computeCellBox pageWidth pageHeight m im row col))
       grid_cells"

definition cells_disjoint :: "rat \<Rightarrow> rat \<Rightarrow> rat \<Rightarrow> rat \<Rightarrow> bool" where
  "cells_disjoint pageWidth pageHeight m im =
     list_all (\<lambda>((row1, col1), (row2, col2)).
        boxes_disjoint (computeCellBox pageWidth pageHeight m im row1 col1)
                       (computeCellBox pageWidth pageHeight m im row2 col2))
       [(a, b). a \<leftarrow> grid_cells, b \<leftarrow> grid_cells, a \<noteq> b]"

definition grid_ok :: "rat \<Rightarrow> rat \<Rightarrow> rat \<Rightarrow> rat \<Rightarrow> bool" where
  "grid_ok pageWidth pageHeight m im =
     (cells_within pageWidth pageHeight m im \<and> cells_disjoint pageWidth pageHeight m im)"

subsection \<open>Concrete runs\<close>

definition world0 :: world where
  "world0 = \<lparr>w_log = [], w_dirs = [], w_files = []\<rparr>"

text \<open>
  A folder \<^verbatim>\<open>in\<close> with two PNG files, of which \<^verbatim>\<open>in/a.png\<close> is gone by the time it is
  read and \<^verbatim>\<open>in/b.png\<close> is a 4 by 3 image.
\<close>

definition env_demo :: env where
  "env_demo =
     \<lparr>isdir = (\<lambda>d. d = ''in''),
      makedirs_ok = (\<lambda>d. True),
      glob_files = (\<lambda>pat. if pat = ''in/*.png'' then [''in/b.png'', ''in/a.png''] else []),
      now = ''20240101_120000'',
      source_of = (\<lambda>p. if p = ''in/a.png'' then Absent else Img 4 3 True),
      string_width = (\<lambda>s. 4 * of_nat (length s)),
      canvas_ok = (\<lambda>p. True),
      save_ok = (\<lambda>p. True)\<rparr>"

text \<open>The same folder when saving the document fails.\<close>

definition env_save_fails :: env where
  "env_save_fails = env_demo\<lparr>save_ok := (\<lambda>p. False)\<rparr>"

text \<open>The same folder when no file matches any pattern.\<close>

definition env_no_images :: env where
  "env_no_images = env_demo\<lparr>glob_files := (\<lambda>pat. [])\<rparr>"

text \<open>The same folder when every file is gone by the time it is read.\<close>

definition env_all_absent :: env where
  "env_all_absent = env_demo\<lparr>source_of := (\<lambda>p. Absent)\<rparr>"

text \<open>Thirteen entries, all of them 4 by 3 images in \<^verbatim>\<open>env_demo\<close>.\<close>

definition paths13 :: "string list" where
  "paths13 = [''a.png'', ''b.png'', ''c.png'', ''d.png'', ''e.png'', ''f.png'', ''g.png'',
              ''h.png'', ''i.png'', ''j.png'', ''k.png'', ''l.png'', ''m.png'']"

section \<open>Pagination\<close>

text \<open>Slices as index ranges, and the pages as consecutive blocks of six entries.\<close>

lemma slice_nth: "take n (drop s xs) = map (\<lambda>k. xs ! k) [s ..< min (s + n) (length xs)]"
proof (rule nth_equalityI)
  show "length (take n (drop s xs)) = length (map (\<lambda>k. xs ! k) [s ..< min (s + n) (length xs)])"
    by (auto simp: min_def)
next
  fix i
  assume "i < length (take n (drop s xs))"
  then have "i < n" and "s + i < length xs"
    by auto
  then show "take n (drop s xs) ! i = map (\<lambda>k. xs ! k) [s ..< min (s + n) (length xs)] ! i"
    by simp
qed

lemma page_images_of_take: "page_images_of xs p = take 6 (drop (p * 6) xs)"
proof (cases "(p + 1) * 6 \<le> length xs")
  case True
  then show ?thesis
    by (simp add: page_images_of_def slice_def images_per_page_def Let_def)
next
  case False
  then show ?thesis
    by (simp add: page_images_of_def slice_def images_per_page_def Let_def min_def)
qed

lemma page_images_of_nth:
  "page_images_of xs p = map (\<lambda>k. xs ! k) [p * 6 ..< min ((p + 1) * 6) (length xs)]"
proof -
  have "page_images_of xs p = take 6 (drop (p * 6) xs)"
    by (rule page_images_of_take)
  also have "\<dots> = map (\<lambda>k. xs ! k) [p * 6 ..< min (p * 6 + 6) (length xs)]"
    by (rule slice_nth)
  finally show ?thesis by (simp add: add.commute)
qed

lemma page_images_length: "length (page_images_of xs p) \<le> 6"
  by (simp add: page_images_of_take)

lemma page_images_subset: "set (page_images_of xs p) \<subseteq> set xs"
proof -
  have "set (take 6 (drop (p * 6) xs)) \<subseteq> set (drop (p * 6) xs)"
    by (rule set_take_subset)
  also have "\<dots> \<subseteq> set xs"
    by (rule set_drop_subset)
  finally show ?thesis
    by (simp only: page_images_of_take)
qed

lemma concat_pages_take:
  "concat (map (page_images_of xs) [0..<k]) = take (k * 6) xs"
proof (induction k)
  case 0
  show ?case by simp
next
  case (Suc k)
  have "take (k * 6) xs @ take 6 (drop (k * 6) xs) = take (k * 6 + 6) xs"
    by (simp add: take_add)
  with Suc show ?case
    by (simp add: page_images_of_take add.commute)
qed

lemma total_pages_ceiling:
  "int (total_pages_of n) = \<lceil>(of_nat n :: rat) / 6\<rceil>"
proof -
  have "\<lceil>(of_nat n :: rat) / 6\<rceil> = \<lceil>(of_int (int n) :: rat) / of_int 6\<rceil>" by simp
  also have "\<dots> = - ((- int n) div 6)"
    unfolding ceiling_divide_eq_div by simp
  also have "\<dots> = int ((n + 6 - 1) div 6)"
    by (simp add: zdiv_int)
  finally show ?thesis by (simp add: total_pages_of_def images_per_page_def)
qed

lemma total_pages_covers: "length xs \<le> total_pages_of (length xs) * 6"
  by (simp add: total_pages_of_def images_per_page_def)

lemma concat_pages: "concat (map (page_images_of xs) [0..<total_pages_of (length xs)]) = xs"
  using total_pages_covers [of xs] by (simp add: concat_pages_take)

lemma total_pages_13: "total_pages_of 13 = 3"
  by (simp add: total_pages_of_def images_per_page_def)

lemma last_page_nonempty:
  assumes "0 < total_pages_of (length xs)"
  shows "page_images_of xs (total_pages_of (length xs) - 1) \<noteq> []"
proof -
  let ?T = "total_pages_of (length xs)"
  have "?T = (length xs + 5) div 6"
    by (simp add: total_pages_of_def images_per_page_def)
  with assms have "(?T - 1) * 6 < length xs"
    by arith
  then show ?thesis
    by (simp add: page_images_of_take)
qed

section \<open>Scaling an image into a cell\<close>

lemma placement_value:
  fixes iw ih cw ch :: rat
  assumes "0 < iw" "0 < ih" "0 < cw" "0 < ch"
  shows "computePlacement iw ih cw ch =
           (let scale = (if iw / ih > cw / ch then cw / iw else ch / ih)
            in Inr (scale, (cw - iw * scale) / 2, (ch - ih * scale) / 2))"
  using assms by (simp add: computePlacement_def Let_def)

lemma placement_defined:
  assumes "ih \<noteq> 0" "ch \<noteq> 0" "\<not> (iw / ih > cw / ch \<and> iw = 0)"
  shows "computePlacement iw ih cw ch =
           Inr (if iw / ih > cw / ch then cw / iw else ch / ih,
                (cw - iw * (if iw / ih > cw / ch then cw / iw else ch / ih)) / 2,
                (ch - ih * (if iw / ih > cw / ch then cw / iw else ch / ih)) / 2)"
  using assms by (simp add: computePlacement_def Let_def)

text \<open>
  Claim C4. For an image and a cell of positive width and height, \<^verbatim>\<open>computePlacement\<close>
  returns a scale under which the image is no wider and no higher than the cell, and as
  wide or as high as the cell on at least one axis. The arithmetic is exact.
\<close>

theorem placement_fits_cell:
  fixes imgWidth imgHeight cellWidth cellHeight :: rat
  assumes "0 < imgWidth" "0 < imgHeight" "0 < cellWidth" "0 < cellHeight"
  shows "\<exists>scale offsetX offsetY.
           computePlacement imgWidth imgHeight cellWidth cellHeight = Inr (scale, offsetX, offsetY)
           \<and> imgWidth * scale \<le> cellWidth \<and> imgHeight * scale \<le> cellHeight
           \<and> (imgWidth * scale = cellWidth \<or> imgHeight * scale = cellHeight)"
proof (cases "imgWidth / imgHeight > cellWidth / cellHeight")
  case True
  then have "cellWidth * imgHeight < imgWidth * cellHeight"
    using assms by (simp add: field_simps)
  then have le: "imgHeight * (cellWidth / imgWidth) \<le> cellHeight"
    using assms by (simp add: field_simps)
  have "computePlacement imgWidth imgHeight cellWidth cellHeight = Inr (cellWidth / imgWidth, (cellWidth - imgWidth * (cellWidth / imgWidth)) / 2, (cellHeight - imgHeight * (cellWidth / imgWidth)) / 2)"
    using True assms by (simp add: placement_value)
  moreover have "imgWidth * (cellWidth / imgWidth) = cellWidth"
    using assms by simp
  moreover have "imgWidth * (cellWidth / imgWidth) \<le> cellWidth"
    using assms by simp
  ultimately show ?thesis
    using le by blast
next
  case False
  then have "imgWidth * cellHeight \<le> cellWidth * imgHeight"
    using assms by (simp add: field_simps)
  then have le: "imgWidth * (cellHeight / imgHeight) \<le> cellWidth"
    using assms by (simp add: field_simps)
  have "computePlacement imgWidth imgHeight cellWidth cellHeight = Inr (cellHeight / imgHeight, (cellWidth - imgWidth * (cellHeight / imgHeight)) / 2, (cellHeight - imgHeight * (cellHeight / imgHeight)) / 2)"
    using False assms by (simp add: placement_value)
  moreover have "imgHeight * (cellHeight / imgHeight) = cellHeight"
    using assms by simp
  moreover have "imgHeight * (cellHeight / imgHeight) \<le> cellHeight"
    using assms by simp
  ultimately show ?thesis
    using le by blast
qed

theorem placement_fits_cell_witness:
  "(0::rat) < 4 \<and> (0::rat) < 3 \<and> (0::rat) < 10 \<and>
   (\<exists>scale offsetX offsetY.
       computePlacement 4 3 10 10 = Inr (scale, offsetX, offsetY)
       \<and> 4 * scale \<le> 10 \<and> 3 * scale \<le> 10 \<and> (4 * scale = 10 \<or> 3 * scale = 10))"
proof -
  have h: "(0::rat) < 4" "(0::rat) < 3" "(0::rat) < 10"
    by simp_all
  from placement_fits_cell [OF h(1) h(2) h(3) h(3)] h show ?thesis
    by blast
qed

text \<open>
  Claim C5. For an image and a cell of positive width and height, the scale returned is
  \<open>cellWidth / imgWidth\<close> when \<open>imgWidth / imgHeight > cellWidth / cellHeight\<close> and
  \<open>cellHeight / imgHeight\<close> otherwise; the offsets are \<open>(cellWidth - imgWidth * scale) / 2\<close>
  and \<open>(cellHeight - imgHeight * scale) / 2\<close>, which leave the same gap on both sides of
  the scaled image in each direction.
\<close>

theorem placement_scale_and_offsets:
  fixes imgWidth imgHeight cellWidth cellHeight :: rat
  assumes "0 < imgWidth" "0 < imgHeight" "0 < cellWidth" "0 < cellHeight"
  shows "let scale = (if imgWidth / imgHeight > cellWidth / cellHeight
                      then cellWidth / imgWidth else cellHeight / imgHeight);
             offsetX = (cellWidth - imgWidth * scale) / 2;
             offsetY = (cellHeight - imgHeight * scale) / 2
         in computePlacement imgWidth imgHeight cellWidth cellHeight =
              Inr (scale, offsetX, offsetY)
            \<and> offsetX + imgWidth * scale + offsetX = cellWidth
            \<and> offsetY + imgHeight * scale + offsetY = cellHeight"
proof -
  have "computePlacement imgWidth imgHeight cellWidth cellHeight =
          (let scale = (if imgWidth / imgHeight > cellWidth / cellHeight
                        then cellWidth / imgWidth else cellHeight / imgHeight)
           in Inr (scale, (cellWidth - imgWidth * scale) / 2, (cellHeight - imgHeight * scale) / 2))"
    using assms by (rule placement_value)
  then have eq: "computePlacement imgWidth imgHeight cellWidth cellHeight =
          Inr (if imgWidth / imgHeight > cellWidth / cellHeight
               then cellWidth / imgWidth else cellHeight / imgHeight,
               (cellWidth - imgWidth * (if imgWidth / imgHeight > cellWidth / cellHeight
                 then cellWidth / imgWidth else cellHeight / imgHeight)) / 2,
               (cellHeight - imgHeight * (if imgWidth / imgHeight > cellWidth / cellHeight
                 then cellWidth / imgWidth else cellHeight / imgHeight)) / 2)"
    by (simp only: Let_def)
  have mid: "(c - a) / 2 + a + (c - a) / 2 = c" for a c :: rat
    by (simp add: field_simps)
  show ?thesis
    unfolding Let_def by (intro conjI eq mid)
qed

theorem placement_scale_and_offsets_witness:
  "(0::rat) < 4 \<and> (0::rat) < 3 \<and> (0::rat) < 10 \<and>
   computePlacement 4 3 10 10 = Inr (5 / 2, 0, 5 / 4)"
proof -
  have h: "(0::rat) < 4" "(0::rat) < 3" "(0::rat) < 10"
    by simp_all
  from placement_scale_and_offsets [OF h(1) h(2) h(3) h(3)] show ?thesis
    by (simp add: Let_def)
qed

section \<open>The grid of cells\<close>

lemma cells_within_iff:
  "cells_within W H m im \<longleftrightarrow>
     - (W - 2 * m) \<le> im \<and> im \<le> W - 2 * m \<and> - (H - 2 * m) \<le> im \<and> 2 * im \<le> H - 2 * m"
  unfolding cells_within_def grid_cells_def box_within_def in_area_def computeCellBox_def Let_def
  by (simp add: field_simps) (safe; linarith)

lemma cells_disjoint_pos:
  assumes "0 < im" "2 * im \<le> H - 2 * m"
  shows "cells_disjoint W H m im"
  using assms
  unfolding cells_disjoint_def grid_cells_def boxes_disjoint_def computeCellBox_def Let_def
  by (simp add: field_simps)

lemma cells_disjoint_first_row:
  assumes "cells_disjoint W H m im"
  shows "boxes_disjoint (computeCellBox W H m im 0 0) (computeCellBox W H m im 0 1)"
  using assms unfolding cells_disjoint_def grid_cells_def
  by simp

text \<open>
  Claim C6, as stated, fails: a positive effective drawing area is not enough. On a page of
  100 by 100 with margin 10 the effective area is 80 by 80; with inner margin 100 the cell
  of row 0 and column 1 starts at \<open>x = 100\<close>, outside the area, and with inner margin 0 the
  two cells of row 0 share the edge \<open>x = 50\<close>.
\<close>

theorem cell_boxes_fail_for_some_margins:
  "(0::rat) < 100 - 2 * 10
   \<and> \<not> box_within 100 100 10 (computeCellBox 100 100 10 100 0 1)
   \<and> \<not> grid_ok 100 100 10 100
   \<and> \<not> boxes_disjoint (computeCellBox 100 100 10 0 0 0) (computeCellBox 100 100 10 0 0 1)
   \<and> \<not> grid_ok 100 100 10 0"
proof -
  have "\<not> box_within 100 100 10 (computeCellBox 100 100 10 100 0 1)"
    by (simp add: box_within_def in_area_def computeCellBox_def)
  moreover have "\<not> cells_within 100 100 10 100"
    by (simp add: cells_within_iff)
  moreover have touch:
    "\<not> boxes_disjoint (computeCellBox 100 100 10 0 0 0) (computeCellBox 100 100 10 0 0 1)"
    by (simp add: boxes_disjoint_def computeCellBox_def)
  moreover have "\<not> cells_disjoint 100 100 10 0"
    using touch cells_disjoint_first_row [of 100 100 10 0] by blast
  ultimately show ?thesis
    by (simp add: grid_ok_def)
qed

text \<open>
  Claim C6, amended. The six cell boxes are pairwise disjoint and lie within the effective
  drawing area exactly when the inner margin is positive, at most the effective width
  \<open>pageWidth - 2 * margin\<close>, and twice it is at most the effective height
  \<open>pageHeight - 2 * margin\<close>. This is the case for the A4 page with margin 40 and inner
  margin 20 that the source uses.
\<close>

theorem cell_boxes_disjoint_within:
  "grid_ok pageWidth pageHeight m im \<longleftrightarrow>
     0 < im \<and> im \<le> pageWidth - 2 * m \<and> 2 * im \<le> pageHeight - 2 * m"
proof
  assume ok: "grid_ok pageWidth pageHeight m im"
  then have w: "- (pageWidth - 2 * m) \<le> im" "im \<le> pageWidth - 2 * m"
    "- (pageHeight - 2 * m) \<le> im" "2 * im \<le> pageHeight - 2 * m"
    by (simp_all add: grid_ok_def cells_within_iff)
  from ok have "cells_disjoint pageWidth pageHeight m im"
    by (simp add: grid_ok_def)
  then have "boxes_disjoint (computeCellBox pageWidth pageHeight m im 0 0)
                            (computeCellBox pageWidth pageHeight m im 0 1)"
    by (rule cells_disjoint_first_row)
  then have "0 < im \<or> pageWidth < m * 2 \<or> pageHeight < im * 2 + m * 2
      \<or> pageHeight * 9 < im * 18 + m * 18"
    by (simp add: boxes_disjoint_def computeCellBox_def Let_def field_simps)
  with w have "0 < im"
    by auto
  with w show "0 < im \<and> im \<le> pageWidth - 2 * m \<and> 2 * im \<le> pageHeight - 2 * m"
    by simp
next
  assume "0 < im \<and> im \<le> pageWidth - 2 * m \<and> 2 * im \<le> pageHeight - 2 * m"
  then show "grid_ok pageWidth pageHeight m im"
    by (simp add: grid_ok_def cells_within_iff cells_disjoint_pos)
qed

theorem cell_boxes_disjoint_within_witness:
  "0 < inner_margin \<and> inner_margin \<le> fst A4 - 2 * margin
   \<and> 2 * inner_margin \<le> snd A4 - 2 * margin
   \<and> grid_ok (fst A4) (snd A4) margin inner_margin"
  using cell_boxes_disjoint_within [of "fst A4" "snd A4" margin inner_margin]
  by (simp add: A4_def mm_def margin_def inner_margin_def)

section \<open>Running create_a4_pdf\<close>

subsection \<open>The world and the canvas after the iteration\<close>

lemma logging_files [simp]: "w_files (logging l ev w) = w_files w"
  by (simp add: logging_def)

lemma logging_dirs [simp]: "w_dirs (logging l ev w) = w_dirs w"
  by (simp add: logging_def)

lemma logging_log [simp]: "w_log (logging l ev w) = w_log w @ [(l, ev)]"
  by (simp add: logging_def)

lemma images_loop_canvas:
  "fst (images_loop e i ps (c, w)) = c\<lparr>c_cur := c_cur c @ drawn_items e i ps\<rparr>"
proof (induction ps arbitrary: i c w)
  case Nil
  show ?case by simp
next
  case (Cons p ps)
  show ?case
    by (simp add: Cons.IH split: sum.split skip.split)
qed

lemma images_loop_files:
  "w_files (snd (images_loop e i ps (c, w))) = w_files w"
proof (induction ps arbitrary: i c w)
  case Nil
  show ?case by simp
next
  case (Cons p ps)
  show ?case
    by (simp add: Cons.IH split: sum.split skip.split)
qed

lemma images_loop_log:
  "w_log (snd (images_loop e i ps (c, w))) = w_log w @ map (entry_event e) (enumerate i ps)"
proof (induction ps arbitrary: i c w)
  case Nil
  show ?case by simp
next
  case (Cons p ps)
  show ?case
    by (simp add: Cons.IH entry_event_def split: sum.split skip.split)
qed

lemma pages_loop_files:
  "w_files (snd (pages_loop e paths T ps (c, w))) = w_files w"
proof (induction ps arbitrary: c w)
  case Nil
  show ?case by simp
next
  case (Cons p ps)
  show ?case
    by (simp add: Let_def split_beta Cons.IH images_loop_files)
qed

lemma pages_loop_log:
  "w_log (snd (pages_loop e paths T ps (c, w))) =
     w_log w @ concat (map (page_events e paths) ps)"
proof (induction ps arbitrary: c w)
  case Nil
  show ?case by simp
next
  case (Cons p ps)
  show ?case
    by (simp add: Let_def split_beta Cons.IH images_loop_log page_events_def)
qed

lemma pages_loop_upt:
  assumes "T - a = n"
  shows "(\<lambda>c'. c_done c' @ [c_cur c']) (fst (pages_loop e paths T [a..<T] (c, w))) =
           c_done c @
             (if a < T
              then (c_cur c @ drawn_items e 0 (page_images_of paths a))
                     # map (\<lambda>p. drawn_items e 0 (page_images_of paths p)) [Suc a..<T]
              else [c_cur c])"
  using assms
proof (induction n arbitrary: a c w)
  case 0
  then show ?case by simp
next
  case (Suc n)
  then have lt: "a < T" by simp
  let ?w1 = "logging DEBUG (PageStart (a + 1) (length (page_images_of paths a))) w"
  let ?c2 = "c\<lparr>c_cur := c_cur c @ drawn_items e 0 (page_images_of paths a)\<rparr>"
  let ?w2 = "snd (images_loop e 0 (page_images_of paths a) (c, ?w1))"
  let ?c3 = "if a < T - 1 then showPage ?c2 else ?c2"
  have upt: "[a..<T] = a # [Suc a..<T]"
    using lt by (simp add: upt_conv_Cons)
  have "pages_loop e paths T (a # [Suc a..<T]) (c, w) =
          pages_loop e paths T [Suc a..<T] (?c3, ?w2)"
    by (simp add: Let_def split_beta images_loop_canvas)
  then have step: "pages_loop e paths T [a..<T] (c, w) =
          pages_loop e paths T [Suc a..<T] (?c3, ?w2)"
    by (simp only: upt)
  have n: "T - Suc a = n"
    using Suc.prems by simp
  let ?D = "\<lambda>p. drawn_items e 0 (page_images_of paths p)"
  let ?r = "fst (pages_loop e paths T [Suc a..<T] (?c3, ?w2))"
  have ih: "c_done ?r @ [c_cur ?r] =
      c_done ?c3 @ (if Suc a < T then (c_cur ?c3 @ ?D (Suc a)) # map ?D [Suc (Suc a)..<T]
                    else [c_cur ?c3])"
    by (rule Suc.IH [OF n])
  have rhs: "c_done ?c3 @ (if Suc a < T then (c_cur ?c3 @ ?D (Suc a)) # map ?D [Suc (Suc a)..<T]
                    else [c_cur ?c3]) =
             c_done c @ (c_cur c @ ?D a) # map ?D [Suc a..<T]"
  proof (cases "Suc a < T")
    case True
    then have "a < T - 1" by simp
    moreover have "[Suc a..<T] = Suc a # [Suc (Suc a)..<T]"
      using True by (simp add: upt_conv_Cons)
    ultimately show ?thesis
      using True by (simp add: showPage_def)
  next
    case False
    then have "\<not> a < T - 1" by simp
    then show ?thesis
      using False by simp
  qed
  show ?case
    unfolding step using ih rhs lt by simp
qed

lemma butlast_upt_less: "butlast [0..<n] = [0..<n - 1]"
  by (cases n) simp_all

lemma save_of_pages:
  assumes "c_done c @ [c_cur c] = X"
  shows "save c = (if last X = [] then butlast X else X)"
proof -
  from assms have "c_cur c = last X" and "c_done c = butlast X"
    by auto
  with assms show ?thesis
    by (simp add: save_def showPage_def)
qed

lemma create_a4_pdf_eq:
  assumes "canvas_ok e out" "save_ok e out"
  shows "create_a4_pdf e paths out w =
      (True, logging INFO (PdfGenerated out)
         ((snd (pages_loop e paths (total_pages_of (length paths))
                  [0..<total_pages_of (length paths)]
                  (new_canvas, logging INFO (PagesPlanned (total_pages_of (length paths))) w)))
          \<lparr>w_files :=
             w_files (snd (pages_loop e paths (total_pages_of (length paths))
                  [0..<total_pages_of (length paths)]
                  (new_canvas, logging INFO (PagesPlanned (total_pages_of (length paths))) w)))
             @ [(out, save (fst (pages_loop e paths (total_pages_of (length paths))
                  [0..<total_pages_of (length paths)]
                  (new_canvas,
                   logging INFO (PagesPlanned (total_pages_of (length paths))) w))))]\<rparr>))"
  using assms by (simp add: create_a4_pdf_def Let_def split_beta)

lemma create_a4_pdf_log:
  assumes "canvas_ok e out" "save_ok e out"
  shows "w_log (snd (create_a4_pdf e paths out w)) =
           w_log w @ [(INFO, PagesPlanned (total_pages_of (length paths)))]
             @ concat (map (page_events e paths) [0..<total_pages_of (length paths)])
             @ [(INFO, PdfGenerated out)]"
  by (simp add: create_a4_pdf_eq [OF assms] pages_loop_log)

lemma create_a4_pdf_ok:
  assumes "canvas_ok e out" "save_ok e out"
  shows "fst (create_a4_pdf e paths out w) = True"
    and "w_files (snd (create_a4_pdf e paths out w)) =
           w_files w @ [(out,
              if total_pages_of (length paths) = 0 then []
              else if drawn_items e 0
                        (page_images_of paths (total_pages_of (length paths) - 1)) = []
              then map (\<lambda>p. drawn_items e 0 (page_images_of paths p))
                     [0..<total_pages_of (length paths) - 1]
              else map (\<lambda>p. drawn_items e 0 (page_images_of paths p))
                     [0..<total_pages_of (length paths)])]"
proof -
  let ?T = "total_pages_of (length paths)"
  let ?D = "\<lambda>p. drawn_items e 0 (page_images_of paths p)"
  let ?w1 = "logging INFO (PagesPlanned ?T) w"
  let ?r = "pages_loop e paths ?T [0..<?T] (new_canvas, ?w1)"
  let ?X = "if 0 < ?T then map ?D [0..<?T] else [ [] ]"
  show "fst (create_a4_pdf e paths out w) = True"
    by (simp add: create_a4_pdf_eq [OF assms])
  have "c_done (fst ?r) @ [c_cur (fst ?r)] = ?X"
    using pages_loop_upt [of ?T 0 "?T" e paths new_canvas ?w1]
    by (simp add: new_canvas_def upt_conv_Cons)
  then have "save (fst ?r) = (if last ?X = [] then butlast ?X else ?X)"
    by (rule save_of_pages)
  also have "\<dots> = (if ?T = 0 then []
                    else if ?D (?T - 1) = [] then map ?D [0..<?T - 1] else map ?D [0..<?T])"
    by (simp add: last_map map_butlast [symmetric] butlast_upt_less)
  finally show "w_files (snd (create_a4_pdf e paths out w)) =
           w_files w @ [(out,
              if ?T = 0 then []
              else if ?D (?T - 1) = [] then map ?D [0..<?T - 1] else map ?D [0..<?T])]"
    by (simp add: create_a4_pdf_eq [OF assms] pages_loop_files)
qed

lemma written_pages_create:
  assumes "canvas_ok e out" "save_ok e out"
  shows "written_pages (create_a4_pdf e paths out w) =
           (if total_pages_of (length paths) = 0 then []
            else if drawn_items e 0
                      (page_images_of paths (total_pages_of (length paths) - 1)) = []
            then map (\<lambda>p. drawn_items e 0 (page_images_of paths p))
                   [0..<total_pages_of (length paths) - 1]
            else map (\<lambda>p. drawn_items e 0 (page_images_of paths p))
                   [0..<total_pages_of (length paths)])"
  using create_a4_pdf_ok(2) [OF assms, of paths w]
  by (simp add: written_pages_def)

lemma written_pages_length:
  assumes "canvas_ok e out" "save_ok e out"
  shows "length (written_pages (create_a4_pdf e paths out w)) =
           (if total_pages_of (length paths) = 0 then 0
            else if drawn_items e 0
                      (page_images_of paths (total_pages_of (length paths) - 1)) = []
            then total_pages_of (length paths) - 1
            else total_pages_of (length paths))"
  by (simp add: written_pages_create [OF assms])

lemma page_at_create:
  assumes "canvas_ok e out" "save_ok e out" "p < total_pages_of (length paths)"
  shows "page_at (written_pages (create_a4_pdf e paths out w)) p =
           drawn_items e 0 (page_images_of paths p)"
proof (cases "drawn_items e 0 (page_images_of paths (total_pages_of (length paths) - 1)) = []")
  case False
  with assms(3) show ?thesis
    by (simp add: page_at_def written_pages_create [OF assms(1,2)])
next
  case True
  show ?thesis
  proof (cases "p < total_pages_of (length paths) - 1")
    case True
    with \<open>drawn_items e 0 (page_images_of paths (total_pages_of (length paths) - 1)) = []\<close>
      assms(3) show ?thesis
      by (simp add: page_at_def written_pages_create [OF assms(1,2)])
  next
    case False
    with assms(3) have "p = total_pages_of (length paths) - 1"
      by simp
    with \<open>drawn_items e 0 (page_images_of paths (total_pages_of (length paths) - 1)) = []\<close>
      assms(3) show ?thesis
      by (simp add: page_at_def written_pages_create [OF assms(1,2)])
  qed
qed

lemma written_page_cases:
  assumes "canvas_ok e out" "save_ok e out"
    and "pg \<in> set (written_pages (create_a4_pdf e paths out w))"
  shows "\<exists>p. pg = drawn_items e 0 (page_images_of paths p)"
  using assms(3) by (auto simp: written_pages_create [OF assms(1,2)] split: if_splits)

lemma written_pages_concat:
  assumes "canvas_ok e out" "save_ok e out"
  shows "concat (written_pages (create_a4_pdf e paths out w)) =
           concat (map (\<lambda>p. drawn_items e 0 (page_images_of paths p))
                     [0..<total_pages_of (length paths)])"
proof (cases "total_pages_of (length paths)")
  case 0
  then show ?thesis
    by (simp add: written_pages_create [OF assms])
next
  case (Suc n)
  then show ?thesis
    by (simp add: written_pages_create [OF assms])
qed

subsection \<open>Which entries are drawn, and where\<close>

lemma A4_value: "fst A4 = 75600 / 127" "snd A4 = 106920 / 127"
  by (simp_all add: A4_def mm_def)

lemma cell_box_A4:
  "computeCellBox (fst A4) (snd A4) margin inner_margin row col =
     (40 + of_nat col * (33990 / 127),
      101840 / 127 - (of_nat row + 1) * (30560 / 127) - of_nat row * 20,
      31450 / 127, 30560 / 127)"
  by (simp add: computeCellBox_def A4_value margin_def inner_margin_def Let_def)

lemma placement_A4_defined:
  assumes "height \<noteq> 0"
  shows "\<exists>scale ox oy.
           computePlacement (of_int width) (of_int height) (31450 / 127) (30560 / 127) =
             Inr (scale, ox, oy)"
proof -
  have "computePlacement (rat_of_int width) (rat_of_int height) (31450 / 127) (30560 / 127) =
          Inr (if rat_of_int width / rat_of_int height > (31450 / 127) / (30560 / 127)
               then (31450 / 127) / rat_of_int width else (30560 / 127) / rat_of_int height,
               (31450 / 127 - rat_of_int width *
                 (if rat_of_int width / rat_of_int height > (31450 / 127) / (30560 / 127)
                  then (31450 / 127) / rat_of_int width
                  else (30560 / 127) / rat_of_int height)) / 2,
               (30560 / 127 - rat_of_int height *
                 (if rat_of_int width / rat_of_int height > (31450 / 127) / (30560 / 127)
                  then (31450 / 127) / rat_of_int width
                  else (30560 / 127) / rat_of_int height)) / 2)"
    by (rule placement_defined) (use assms in auto)
  then show ?thesis
    by blast
qed

lemma placement_A4_undefined:
  "computePlacement (of_int width) 0 (31450 / 127) (30560 / 127) = Inl ZeroDivisionError"
  by (simp add: computePlacement_def)

lemma place_image_placeable:
  assumes "placeable e p"
  shows "\<exists>d. place_image e i p = Inr d"
proof -
  from assms obtain width height where src: "source_of e p = Img width height True"
    and h: "height \<noteq> 0"
    by (auto simp: placeable_def split: source.splits)
  from placement_A4_defined [OF h, of width] obtain scale ox oy where
    "computePlacement (of_int width) (of_int height) (31450 / 127) (30560 / 127) =
       Inr (scale, ox, oy)"
    by blast
  then show ?thesis
    by (simp add: place_image_def src cell_box_A4 Let_def)
qed

lemma place_image_Inr:
  assumes "place_image e i p = Inr d"
  shows "placeable e p" and "d_path d = p" and "d_index d = i"
    and "d_row d = i div 2" and "d_col d = i mod 2"
proof -
  from assms obtain width height where src: "source_of e p = Img width height True"
    by (auto simp: place_image_def cell_box_A4 Let_def split: source.splits sum.splits if_splits)
  have h: "height \<noteq> 0"
  proof
    assume "height = 0"
    with assms src show False
      by (simp add: place_image_def cell_box_A4 placement_A4_undefined Let_def)
  qed
  show "placeable e p"
    by (simp add: placeable_def src h)
  from placement_A4_defined [OF h, of width] obtain scale ox oy where
    "computePlacement (of_int width) (of_int height) (31450 / 127) (30560 / 127) =
       Inr (scale, ox, oy)"
    by blast
  with assms src show "d_path d = p" and "d_index d = i"
    and "d_row d = i div 2" and "d_col d = i mod 2"
    by (auto simp: place_image_def cell_box_A4 Let_def)
qed

lemma place_image_cases:
  "(placeable e p \<and> (\<exists>d. place_image e i p = Inr d \<and> d_path d = p \<and> d_index d = i
       \<and> d_row d = i div 2 \<and> d_col d = i mod 2))
   \<or> (\<not> placeable e p \<and> (\<exists>s. place_image e i p = Inl s))"
proof (cases "place_image e i p")
  case (Inl s)
  then show ?thesis
    using place_image_placeable [of e p i] by auto
next
  case (Inr d)
  then show ?thesis
    using place_image_Inr [OF Inr] by auto
qed

lemma drawn_items_enumerate:
  "map (\<lambda>d. (d_index d, d_path d)) (drawn_items e i ps) =
     filter (\<lambda>(k, p). placeable e p) (enumerate i ps)"
proof (induction ps arbitrary: i)
  case Nil
  show ?case by simp
next
  case (Cons p ps)
  show ?case
    using place_image_cases [of e p i] by (auto simp: Cons.IH)
qed

lemma drawn_items_cell:
  "d \<in> set (drawn_items e i ps) \<Longrightarrow> d_row d = d_index d div 2 \<and> d_col d = d_index d mod 2"
proof (induction ps arbitrary: i)
  case Nil
  then show ?case by simp
next
  case (Cons p ps)
  then show ?case
    using place_image_cases [of e p i] by auto
qed

lemma drawn_items_paths:
  "map d_path (drawn_items e i ps) = filter (placeable e) ps"
proof (induction ps arbitrary: i)
  case Nil
  show ?case by simp
next
  case (Cons p ps)
  show ?case
    using place_image_cases [of e p i] by (auto simp: Cons.IH)
qed

lemma drawn_items_indices:
  "map d_index (drawn_items e i ps) = map fst (filter (\<lambda>(k, p). placeable e p) (enumerate i ps))"
proof -
  have "map d_index (drawn_items e i ps) =
          map fst (map (\<lambda>d. (d_index d, d_path d)) (drawn_items e i ps))"
    by (simp add: comp_def)
  then show ?thesis
    by (simp only: drawn_items_enumerate)
qed

lemma drawn_items_length: "length (drawn_items e i ps) \<le> length ps"
proof -
  have "length (drawn_items e i ps) = length (map d_path (drawn_items e i ps))"
    by simp
  also have "\<dots> \<le> length ps"
    by (simp only: drawn_items_paths length_filter_le)
  finally show ?thesis .
qed

lemma drawn_items_position:
  assumes "d \<in> set (drawn_items e 0 ps)"
  shows "d_index d < length ps" and "d_path d = ps ! d_index d"
proof -
  from assms have "(d_index d, d_path d) \<in> set (map (\<lambda>d. (d_index d, d_path d)) (drawn_items e 0 ps))"
    by (simp add: image_iff) blast
  then have "(d_index d, d_path d) \<in> set (enumerate 0 ps)"
    by (simp only: drawn_items_enumerate) simp
  then show "d_index d < length ps" and "d_path d = ps ! d_index d"
    by (simp_all add: in_set_enumerate_eq)
qed

lemma drawn_items_sorted: "sorted_wrt (<) (map d_index (drawn_items e i ps))"
proof -
  have "sorted_wrt (<) (map fst (enumerate i ps))"
    by (simp only: map_fst_enumerate sorted_wrt_upt)
  then have "sorted_wrt (\<lambda>x y. fst x < fst y) (enumerate i ps)"
    by (simp only: sorted_wrt_map)
  then have "sorted_wrt (\<lambda>x y. fst x < fst y)
               (filter (\<lambda>(k, p). placeable e p) (enumerate i ps))"
    by (rule sorted_wrt_filter)
  then have "sorted_wrt (<) (map fst (filter (\<lambda>(k, p). placeable e p) (enumerate i ps)))"
    by (simp only: sorted_wrt_map)
  then show ?thesis
    by (simp only: drawn_items_indices)
qed

lemma drawn_items_indices_distinct: "distinct (map d_index (drawn_items e i ps))"
proof -
  have "distinct (map fst (enumerate i ps))"
    by (simp only: map_fst_enumerate distinct_upt)
  then have "distinct (map fst (filter (\<lambda>(k, p). placeable e p) (enumerate i ps)))"
    by (rule distinct_map_filter)
  then show ?thesis
    by (simp only: drawn_items_indices)
qed

lemma drawn_items_single:
  "map slot_of (drawn_items e 0 [x]) = (if placeable e x then [(x, 0, 0, 0)] else [])"
  using place_image_cases [of e x 0] by (auto simp: slot_of_def)

lemma cell_inj: "inj (\<lambda>i::nat. (i div 2, i mod 2))"
proof (rule injI)
  fix i j :: nat
  assume "(i div 2, i mod 2) = (j div 2, j mod 2)"
  then have "i div 2 = j div 2" and "i mod 2 = j mod 2"
    by simp_all
  then have "i div 2 * 2 + i mod 2 = j div 2 * 2 + j mod 2"
    by simp
  then show "i = j"
    by (simp only: div_mult_mod_eq)
qed

lemma cells_distinct:
  assumes "distinct (xs :: nat list)"
  shows "distinct (map (\<lambda>i. (i div 2, i mod 2)) xs)"
proof -
  have "inj_on (\<lambda>i::nat. (i div 2, i mod 2)) (set xs)"
    using cell_inj by (rule inj_on_subset) simp
  with assms show ?thesis
    by (simp add: distinct_map)
qed

lemma drawn_items_cells:
  "map cell_of (drawn_items e i ps) =
     map (\<lambda>i. (i div 2, i mod 2)) (map d_index (drawn_items e i ps))"
proof -
  have "\<forall>d \<in> set (drawn_items e i ps). cell_of d = (d_index d div 2, d_index d mod 2)"
    using drawn_items_cell [of _ e i ps] by (simp add: cell_of_def)
  then show ?thesis
    by (simp add: comp_def)
qed

lemma drawn_items_cells_distinct: "distinct (map cell_of (drawn_items e i ps))"
proof -
  have "distinct (map d_index (drawn_items e i ps))"
    by (rule drawn_items_indices_distinct)
  then have "distinct (map (\<lambda>i. (i div 2, i mod 2)) (map d_index (drawn_items e i ps)))"
    by (rule cells_distinct)
  then show ?thesis
    by (simp only: drawn_items_cells)
qed

lemma placed_paths:
  assumes "canvas_ok e out" "save_ok e out"
  shows "map d_path (concat (written_pages (create_a4_pdf e image_paths out w))) =
           filter (placeable e) image_paths"
proof -
  let ?T = "total_pages_of (length image_paths)"
  have "map d_path (concat (map (\<lambda>p. drawn_items e 0 (page_images_of image_paths p)) [0..<?T])) =
          concat (map (\<lambda>p. filter (placeable e) (page_images_of image_paths p)) [0..<?T])"
    by (simp add: map_concat comp_def drawn_items_paths)
  also have "\<dots> = filter (placeable e) (concat (map (page_images_of image_paths) [0..<?T]))"
    by (simp add: filter_concat comp_def)
  also have "\<dots> = filter (placeable e) image_paths"
    by (simp only: concat_pages)
  finally show ?thesis
    by (simp only: written_pages_concat [OF assms])
qed

lemma all_placeable_page:
  assumes "list_all (placeable e) xs"
  shows "map d_path (drawn_items e 0 (page_images_of xs p)) = page_images_of xs p"
proof -
  have "\<forall>x \<in> set (page_images_of xs p). placeable e x"
    using assms page_images_subset [of xs p] by (auto simp: list_all_iff)
  then have "filter (placeable e) (page_images_of xs p) = page_images_of xs p"
    by (simp only: filter_True)
  then show ?thesis
    by (simp only: drawn_items_paths)
qed

lemma all_placeable_pages:
  assumes "canvas_ok e out" "save_ok e out" "list_all (placeable e) xs"
  shows "written_pages (create_a4_pdf e xs out w) =
           map (\<lambda>p. drawn_items e 0 (page_images_of xs p)) [0..<total_pages_of (length xs)]"
proof (cases "total_pages_of (length xs) = 0")
  case True
  then show ?thesis
    by (simp add: written_pages_create [OF assms(1,2)])
next
  case False
  then have "page_images_of xs (total_pages_of (length xs) - 1) \<noteq> []"
    by (intro last_page_nonempty) simp
  then have "map d_path (drawn_items e 0 (page_images_of xs (total_pages_of (length xs) - 1)))
      \<noteq> []"
    by (simp only: all_placeable_page [OF assms(3)] not_False_eq_True)
  then have "drawn_items e 0 (page_images_of xs (total_pages_of (length xs) - 1)) \<noteq> []"
    by auto
  with False show ?thesis
    by (simp add: written_pages_create [OF assms(1,2)])
qed

subsection \<open>Pages\<close>

text \<open>
  Claim C3. For a list of \<open>N\<close> entries the number of pages is \<open>\<lceil>N / 6\<rceil>\<close>; page \<open>p\<close> (counted
  from 0) is the list of the entries at the input indices from \<open>6p\<close> up to, and excluding,
  \<open>min (6(p + 1)) N\<close>, in input order; and the pages concatenated in page order give back
  the input list. A run of \<^verbatim>\<open>create_a4_pdf\<close> that saves its document goes through exactly
  these pages: its logging calls are the announcement of the page count, then for every page
  in turn the page's announcement and one call for each entry of its slice, then the
  report of the saved file. Page \<open>p\<close> of the document holds the placeable entries of slice
  \<open>p\<close>, and the document has no further page. When every entry is placeable the document
  has \<open>\<lceil>N / 6\<rceil>\<close> pages, page \<open>p\<close> holds exactly slice \<open>p\<close>, and the entries of all pages
  in page order are the input list.
\<close>

theorem paginate_slices:
  "int (total_pages_of (length xs)) = \<lceil>(of_nat (length xs) :: rat) / 6\<rceil>
   \<and> (\<forall>p < total_pages_of (length xs).
         page_images_of xs p = map (\<lambda>k. xs ! k) [p * 6 ..< min ((p + 1) * 6) (length xs)])
   \<and> concat (map (page_images_of xs) [0..<total_pages_of (length xs)]) = xs
   \<and> (canvas_ok e out \<and> save_ok e out \<longrightarrow>
        w_log (snd (create_a4_pdf e xs out w)) =
          w_log w @ [(INFO, PagesPlanned (total_pages_of (length xs)))]
            @ concat (map (page_events e xs) [0..<total_pages_of (length xs)])
            @ [(INFO, PdfGenerated out)]
        \<and> (\<forall>p < total_pages_of (length xs).
              map d_path (page_at (written_pages (create_a4_pdf e xs out w)) p) =
                filter (placeable e) (page_images_of xs p))
        \<and> length (written_pages (create_a4_pdf e xs out w)) \<le> total_pages_of (length xs)
        \<and> (list_all (placeable e) xs \<longrightarrow>
              length (written_pages (create_a4_pdf e xs out w)) = total_pages_of (length xs)
              \<and> map (map d_path) (written_pages (create_a4_pdf e xs out w)) =
                  map (page_images_of xs) [0..<total_pages_of (length xs)]
              \<and> concat (map (map d_path) (written_pages (create_a4_pdf e xs out w))) = xs))"
proof (intro conjI allI impI)
  show "int (total_pages_of (length xs)) = \<lceil>(of_nat (length xs) :: rat) / 6\<rceil>"
    by (rule total_pages_ceiling)
next
  fix p
  show "page_images_of xs p = map (\<lambda>k. xs ! k) [p * 6 ..< min ((p + 1) * 6) (length xs)]"
    by (rule page_images_of_nth)
next
  show "concat (map (page_images_of xs) [0..<total_pages_of (length xs)]) = xs"
    by (rule concat_pages)
next
  assume "canvas_ok e out \<and> save_ok e out"
  then have ok: "canvas_ok e out" "save_ok e out"
    by simp_all
  show "w_log (snd (create_a4_pdf e xs out w)) =
          w_log w @ [(INFO, PagesPlanned (total_pages_of (length xs)))]
            @ concat (map (page_events e xs) [0..<total_pages_of (length xs)])
            @ [(INFO, PdfGenerated out)]"
    by (rule create_a4_pdf_log [OF ok])
  show "length (written_pages (create_a4_pdf e xs out w)) \<le> total_pages_of (length xs)"
    by (simp add: written_pages_length [OF ok])
next
  fix p
  assume "canvas_ok e out \<and> save_ok e out" and p: "p < total_pages_of (length xs)"
  then have ok: "canvas_ok e out" "save_ok e out"
    by simp_all
  show "map d_path (page_at (written_pages (create_a4_pdf e xs out w)) p) =
          filter (placeable e) (page_images_of xs p)"
    by (simp only: page_at_create [OF ok p] drawn_items_paths)
next
  assume "canvas_ok e out \<and> save_ok e out" and all: "list_all (placeable e) xs"
  then have ok: "canvas_ok e out" "save_ok e out"
    by simp_all
  note pages = all_placeable_pages [OF ok all, of w]
  show "length (written_pages (create_a4_pdf e xs out w)) = total_pages_of (length xs)"
    by (simp add: pages)
  show paths: "map (map d_path) (written_pages (create_a4_pdf e xs out w)) =
      map (page_images_of xs) [0..<total_pages_of (length xs)]"
    by (simp add: pages all_placeable_page [OF all])
  show "concat (map (map d_path) (written_pages (create_a4_pdf e xs out w))) = xs"
    by (simp only: paths concat_pages)
qed

theorem paginate_slices_witness:
  "canvas_ok env_demo ''out.pdf'' \<and> save_ok env_demo ''out.pdf''
   \<and> int (total_pages_of (length paths13)) = 3
   \<and> map (map d_path) (written_pages (create_a4_pdf env_demo paths13 ''out.pdf'' world0)) =
       [ [''a.png'', ''b.png'', ''c.png'', ''d.png'', ''e.png'', ''f.png''],
         [''g.png'', ''h.png'', ''i.png'', ''j.png'', ''k.png'', ''l.png''],
         [''m.png''] ]
   \<and> concat (map (map d_path)
        (written_pages (create_a4_pdf env_demo paths13 ''out.pdf'' world0))) = paths13"
proof -
  have h1: "canvas_ok env_demo ''out.pdf''" and h2: "save_ok env_demo ''out.pdf''"
    by (simp_all add: env_demo_def)
  have all: "list_all (placeable env_demo) paths13"
    by (simp add: paths13_def placeable_def env_demo_def)
  have t: "int (total_pages_of (length paths13)) = 3"
    by (simp add: paths13_def total_pages_of_def images_per_page_def)
  have slices: "map (page_images_of paths13) [0..<total_pages_of (length paths13)] =
       [ [''a.png'', ''b.png'', ''c.png'', ''d.png'', ''e.png'', ''f.png''],
         [''g.png'', ''h.png'', ''i.png'', ''j.png'', ''k.png'', ''l.png''],
         [''m.png''] ]"
    by code_simp
  from paginate_slices [of paths13 env_demo "''out.pdf''" world0] h1 h2 all
  have "map (map d_path) (written_pages (create_a4_pdf env_demo paths13 ''out.pdf'' world0)) =
          map (page_images_of paths13) [0..<total_pages_of (length paths13)]"
    and "concat (map (map d_path)
          (written_pages (create_a4_pdf env_demo paths13 ''out.pdf'' world0))) = paths13"
    by blast+
  with h1 h2 t slices show ?thesis
    by simp
qed

subsection \<open>Skipped entries\<close>

text \<open>
  Claim C1, as stated, fails: the slot index is the index of \<^verbatim>\<open>enumerate(page_images)\<close>,
  which advances for a skipped entry too. With \<^verbatim>\<open>in/a.png\<close> missing, \<^verbatim>\<open>in/b.png\<close> is drawn
  in slot 1 (row 0, column 1); had \<^verbatim>\<open>in/a.png\<close> been absent from the list it would have been
  drawn in slot 0 (row 0, column 0).
\<close>

theorem skipped_entry_leaves_gap:
  "source_of env_demo ''in/a.png'' = Absent
   \<and> map (map slot_of)
        (written_pages (create_a4_pdf env_demo [''in/a.png'', ''in/b.png''] ''out.pdf'' world0)) =
      [ [(''in/b.png'', 1, 0, 1)] ]
   \<and> map (map slot_of)
        (written_pages (create_a4_pdf env_demo [''in/b.png''] ''out.pdf'' world0)) =
      [ [(''in/b.png'', 0, 0, 0)] ]"
  by code_simp

text \<open>
  Claim C1, amended. On every page the entries drawn are the placeable entries of the
  page's input slice, each with its position in that slice as slot index, and with row
  \<open>i div 2\<close> and column \<open>i mod 2\<close> for slot index \<open>i\<close>: a skipped entry leaves its cell empty
  and the other entries of the page stay where they would be had it been drawn.
\<close>

theorem slot_is_position_in_page:
  assumes "canvas_ok e out" "save_ok e out" "p < total_pages_of (length image_paths)"
  shows "map index_path (page_at (written_pages (create_a4_pdf e image_paths out w)) p) =
           filter (\<lambda>(i, path). placeable e path) (enumerate 0 (page_images_of image_paths p))
         \<and> map cell_of (page_at (written_pages (create_a4_pdf e image_paths out w)) p) =
           map (\<lambda>(i, path). (i div 2, i mod 2))
             (filter (\<lambda>(i, path). placeable e path)
                (enumerate 0 (page_images_of image_paths p)))"
proof -
  let ?ps = "page_images_of image_paths p"
  have ip: "map index_path (drawn_items e 0 ?ps) =
          filter (\<lambda>(i, path). placeable e path) (enumerate 0 ?ps)"
    using drawn_items_enumerate [of e 0 ?ps] by (simp add: index_path_def [abs_def])
  have "map cell_of (drawn_items e 0 ?ps) =
          map (\<lambda>(i, path). (i div 2, i mod 2)) (map index_path (drawn_items e 0 ?ps))"
    using drawn_items_cell [of _ e 0 ?ps] by (simp add: cell_of_def index_path_def)
  with ip show ?thesis
    by (simp add: page_at_create [OF assms])
qed

theorem slot_is_position_in_page_witness:
  "canvas_ok env_demo ''out.pdf'' \<and> save_ok env_demo ''out.pdf''
   \<and> 0 < total_pages_of (length [''in/a.png'', ''in/b.png''])
   \<and> map index_path
        (page_at (written_pages
           (create_a4_pdf env_demo [''in/a.png'', ''in/b.png''] ''out.pdf'' world0)) 0)
      = [(1, ''in/b.png'')]
   \<and> map cell_of
        (page_at (written_pages
           (create_a4_pdf env_demo [''in/a.png'', ''in/b.png''] ''out.pdf'' world0)) 0)
      = [(0, 1)]"
proof -
  have h1: "canvas_ok env_demo ''out.pdf''" and h2: "save_ok env_demo ''out.pdf''"
    by (simp_all add: env_demo_def)
  have h3: "0 < total_pages_of (length [''in/a.png'', ''in/b.png''])"
    by (simp add: total_pages_of_def images_per_page_def)
  have pg: "page_images_of [''in/a.png'', ''in/b.png''] 0 = [''in/a.png'', ''in/b.png'']"
    by (simp add: page_images_of_def slice_def images_per_page_def)
  have pl: "\<not> placeable env_demo ''in/a.png''" "placeable env_demo ''in/b.png''"
    by (simp_all add: placeable_def env_demo_def)
  show ?thesis
    using slot_is_position_in_page [OF h1 h2 h3, of world0] h1 h2 h3
    by (simp add: pg pl enumerate_simps)
qed

subsection \<open>Cells\<close>

text \<open>
  Claim C7. An entry drawn on a page has a slot index \<open>i\<close> below 6, which is its position in
  the page's input slice, and its cell is row \<open>i div 2\<close>, column \<open>i mod 2\<close>. For 13 entries
  the page slices have lengths 6, 6 and 1. When the 13th entry is drawn the document has
  three pages and the third holds that entry alone, in row 0, column 0; when it is skipped
  nothing is drawn on a third page and the document has two pages.
\<close>

theorem cell_assignment:
  assumes "canvas_ok e out" "save_ok e out"
  shows "(\<forall>p < total_pages_of (length image_paths).
            \<forall>d \<in> set (page_at (written_pages (create_a4_pdf e image_paths out w)) p).
              d_index d < 6
              \<and> d_index d < length (page_images_of image_paths p)
              \<and> d_path d = page_images_of image_paths p ! d_index d
              \<and> cell_of d = (d_index d div 2, d_index d mod 2))
         \<and> length (written_pages (create_a4_pdf e image_paths out w))
             \<le> total_pages_of (length image_paths)
         \<and> (length image_paths = 13 \<longrightarrow>
              map length (map (page_images_of image_paths)
                 [0..<total_pages_of (length image_paths)]) = [6, 6, 1]
              \<and> length (written_pages (create_a4_pdf e image_paths out w)) =
                  (if placeable e (image_paths ! 12) then 3 else 2)
              \<and> map slot_of (page_at (written_pages (create_a4_pdf e image_paths out w)) 2) =
                  (if placeable e (image_paths ! 12) then [(image_paths ! 12, 0, 0, 0)] else []))"
proof (intro conjI allI impI ballI)
  fix p d
  assume p: "p < total_pages_of (length image_paths)"
    and d: "d \<in> set (page_at (written_pages (create_a4_pdf e image_paths out w)) p)"
  from d have d': "d \<in> set (drawn_items e 0 (page_images_of image_paths p))"
    by (simp only: page_at_create [OF assms p])
  show "d_index d < length (page_images_of image_paths p)"
    using d' by (rule drawn_items_position)
  then show "d_index d < 6"
    using page_images_length [of image_paths p] by simp
  show "d_path d = page_images_of image_paths p ! d_index d"
    using d' by (rule drawn_items_position)
  show "cell_of d = (d_index d div 2, d_index d mod 2)"
    using drawn_items_cell [OF d'] by (simp add: cell_of_def)
next
  show "length (written_pages (create_a4_pdf e image_paths out w))
          \<le> total_pages_of (length image_paths)"
    by (simp add: written_pages_length [OF assms])
next
  assume len: "length image_paths = 13"
  have upt: "[0..<3] = [0, 1, 2::nat]"
    by (simp add: upt_conv_Cons)
  show "map length (map (page_images_of image_paths)
          [0..<total_pages_of (length image_paths)]) = [6, 6, 1]"
    by (simp add: len total_pages_13 upt page_images_of_take)
  have "page_images_of image_paths 2 = take 6 (drop 12 image_paths)"
    by (simp add: page_images_of_take)
  also have "\<dots> = map (\<lambda>k. image_paths ! k) [12 ..< min (12 + 6) (length image_paths)]"
    by (rule slice_nth)
  also have "\<dots> = [image_paths ! 12]"
    by (simp add: len upt_conv_Cons)
  finally have last_page: "page_images_of image_paths 2 = [image_paths ! 12]" .
  have slots: "map slot_of (drawn_items e 0 (page_images_of image_paths 2)) =
      (if placeable e (image_paths ! 12) then [(image_paths ! 12, 0, 0, 0)] else [])"
    by (simp only: last_page drawn_items_single)
  have "2 < total_pages_of (length image_paths)"
    by (simp add: len total_pages_13)
  then have "page_at (written_pages (create_a4_pdf e image_paths out w)) 2 =
               drawn_items e 0 (page_images_of image_paths 2)"
    by (rule page_at_create [OF assms])
  then show "map slot_of (page_at (written_pages (create_a4_pdf e image_paths out w)) 2) =
      (if placeable e (image_paths ! 12) then [(image_paths ! 12, 0, 0, 0)] else [])"
    by (simp only: slots)
  have "drawn_items e 0 (page_images_of image_paths 2) = [] \<longleftrightarrow>
          \<not> placeable e (image_paths ! 12)"
    using slots by (cases "placeable e (image_paths ! 12)") auto
  then show "length (written_pages (create_a4_pdf e image_paths out w)) =
      (if placeable e (image_paths ! 12) then 3 else 2)"
    by (simp add: written_pages_length [OF assms] len total_pages_13)
qed

theorem cell_assignment_witness:
  "canvas_ok env_demo ''out.pdf'' \<and> save_ok env_demo ''out.pdf'' \<and> length paths13 = 13
   \<and> map length (map (page_images_of paths13) [0..<total_pages_of (length paths13)]) = [6, 6, 1]
   \<and> length (written_pages (create_a4_pdf env_demo paths13 ''out.pdf'' world0)) = 3
   \<and> map slot_of (page_at (written_pages (create_a4_pdf env_demo paths13 ''out.pdf'' world0)) 2) =
        [(''m.png'', 0, 0, 0)]"
proof -
  have h1: "canvas_ok env_demo ''out.pdf''" and h2: "save_ok env_demo ''out.pdf''"
    by (simp_all add: env_demo_def)
  have len: "length paths13 = 13"
    by (simp add: paths13_def)
  have last: "paths13 ! 12 = ''m.png''"
    by (simp add: paths13_def)
  have pl: "placeable env_demo ''m.png''"
    by (simp add: placeable_def env_demo_def)
  from cell_assignment [OF h1 h2, of paths13 world0] len
  have "map length (map (page_images_of paths13) [0..<total_pages_of (length paths13)]) = [6, 6, 1]
      \<and> length (written_pages (create_a4_pdf env_demo paths13 ''out.pdf'' world0)) =
          (if placeable env_demo (paths13 ! 12) then 3 else 2)
      \<and> map slot_of
          (page_at (written_pages (create_a4_pdf env_demo paths13 ''out.pdf'' world0)) 2) =
          (if placeable env_demo (paths13 ! 12) then [(paths13 ! 12, 0, 0, 0)] else [])"
    by blast
  then show ?thesis
    using h1 h2 len by (simp add: last pl)
qed

subsection \<open>batch_process_folder\<close>

lemma glob_loop_found:
  "fst (glob_loop e f exts (acc, w)) =
     acc @ concat (map (\<lambda>ext. glob_files e (path_join f ext)) exts)"
  by (induction exts arbitrary: acc w) (simp_all add: Let_def)

lemma glob_loop_files: "w_files (snd (glob_loop e f exts (acc, w))) = w_files w"
  by (induction exts arbitrary: acc w) (simp_all add: Let_def)

lemma sort_Nil_iff: "sort xs = [] \<longleftrightarrow> xs = []"
proof -
  have "length (sort xs) = length xs"
    by simp
  then show ?thesis
    by (metis length_0_conv)
qed

lemma batch_unfold:
  assumes "isdir e f"
    and "makedirs_ok e (case outp of None \<Rightarrow> path_join f ''pdf_output'' | Some d \<Rightarrow> d)"
  shows "batch_process_folder e f outp exts w =
     (let od = (case outp of None \<Rightarrow> path_join f ''pdf_output'' | Some d \<Rightarrow> d);
          w1 = logging INFO (OutputDir od) (w\<lparr>w_dirs := w_dirs w @ [od]\<rparr>);
          r = glob_loop e f exts ([], w1);
          image_files = sort (fst r);
          w3 = logging INFO (FoundTotal f (length image_files)) (snd r)
      in if image_files = [] then (False, logging WARNING NoImages w3)
         else (True, logging INFO BatchDone
                 (snd (create_a4_pdf e image_files (path_join od (''images_'' @ now e @ ''.pdf''))
                         (logging INFO (ProcessingAll (length image_files)) w3)))))"
  using assms
  by (simp add: batch_process_folder_def Let_def split_beta del: sort_Nil_iff)

lemma batch_no_images:
  assumes "isdir e f"
    and "makedirs_ok e (case outp of None \<Rightarrow> path_join f ''pdf_output'' | Some d \<Rightarrow> d)"
    and "concat (map (\<lambda>ext. glob_files e (path_join f ext)) exts) = []"
  shows "fst (batch_process_folder e f outp exts w) = False"
    and "w_files (snd (batch_process_folder e f outp exts w)) = w_files w"
    and "last (w_log (snd (batch_process_folder e f outp exts w))) = (WARNING, NoImages)"
proof -
  let ?od = "case outp of None \<Rightarrow> path_join f ''pdf_output'' | Some d \<Rightarrow> d"
  let ?w1 = "logging INFO (OutputDir ?od) (w\<lparr>w_dirs := w_dirs w @ [?od]\<rparr>)"
  have found: "fst (glob_loop e f exts ([], ?w1)) = []"
    using assms(3) by (simp only: glob_loop_found append_Nil)
  have eq: "batch_process_folder e f outp exts w =
      (False, logging WARNING NoImages
                (logging INFO (FoundTotal f 0) (snd (glob_loop e f exts ([], ?w1)))))"
    by (simp add: batch_unfold [OF assms(1,2)] Let_def found)
  show "fst (batch_process_folder e f outp exts w) = False"
    by (simp add: eq)
  show "w_files (snd (batch_process_folder e f outp exts w)) = w_files w"
    by (simp add: eq glob_loop_files)
  show "last (w_log (snd (batch_process_folder e f outp exts w))) = (WARNING, NoImages)"
    by (simp add: eq)
qed

lemma batch_some_images:
  assumes "isdir e f"
    and "makedirs_ok e (case outp of None \<Rightarrow> path_join f ''pdf_output'' | Some d \<Rightarrow> d)"
    and "concat (map (\<lambda>ext. glob_files e (path_join f ext)) exts) \<noteq> []"
  shows "fst (batch_process_folder e f outp exts w) = True"
    and "\<exists>w'. w_files (snd (batch_process_folder e f outp exts w)) =
           w_files (snd (create_a4_pdf e
              (sort (concat (map (\<lambda>ext. glob_files e (path_join f ext)) exts)))
              (path_join (case outp of None \<Rightarrow> path_join f ''pdf_output'' | Some d \<Rightarrow> d)
                 (''images_'' @ now e @ ''.pdf''))
              w'))
         \<and> w_files w' = w_files w"
proof -
  let ?od = "case outp of None \<Rightarrow> path_join f ''pdf_output'' | Some d \<Rightarrow> d"
  let ?w1 = "logging INFO (OutputDir ?od) (w\<lparr>w_dirs := w_dirs w @ [?od]\<rparr>)"
  define found where "found = concat (map (\<lambda>ext. glob_files e (path_join f ext)) exts)"
  have found: "fst (glob_loop e f exts ([], ?w1)) = found"
    unfolding found_def by (simp only: glob_loop_found append_Nil)
  have ne: "sort found \<noteq> []"
    using assms(3) unfolding found_def [symmetric] by (simp only: sort_Nil_iff not_False_eq_True)
  let ?w4 = "logging INFO (ProcessingAll (length (sort found)))
               (logging INFO (FoundTotal f (length (sort found)))
                  (snd (glob_loop e f exts ([], ?w1))))"
  have eq: "batch_process_folder e f outp exts w =
      (True, logging INFO BatchDone
               (snd (create_a4_pdf e (sort found) (path_join ?od (''images_'' @ now e @ ''.pdf''))
                  ?w4)))"
    using ne by (simp add: batch_unfold [OF assms(1,2)] Let_def found del: sort_Nil_iff)
  show "fst (batch_process_folder e f outp exts w) = True"
    by (simp add: eq)
  have "w_files ?w4 = w_files w"
    by (simp add: glob_loop_files)
  then show "\<exists>w'. w_files (snd (batch_process_folder e f outp exts w)) =
           w_files (snd (create_a4_pdf e
              (sort (concat (map (\<lambda>ext. glob_files e (path_join f ext)) exts)))
              (path_join (case outp of None \<Rightarrow> path_join f ''pdf_output'' | Some d \<Rightarrow> d)
                 (''images_'' @ now e @ ''.pdf''))
              w'))
         \<and> w_files w' = w_files w"
    unfolding found_def [symmetric] eq by (intro exI [of _ ?w4]) simp
qed

lemma batch_placed_paths:
  assumes "isdir e f"
    and "makedirs_ok e (case outp of None \<Rightarrow> path_join f ''pdf_output'' | Some d \<Rightarrow> d)"
    and "concat (map (\<lambda>ext. glob_files e (path_join f ext)) exts) \<noteq> []"
    and "canvas_ok e (path_join (case outp of None \<Rightarrow> path_join f ''pdf_output'' | Some d \<Rightarrow> d)
                        (''images_'' @ now e @ ''.pdf''))"
    and "save_ok e (path_join (case outp of None \<Rightarrow> path_join f ''pdf_output'' | Some d \<Rightarrow> d)
                      (''images_'' @ now e @ ''.pdf''))"
  shows "map d_path (concat (written_pages (batch_process_folder e f outp exts w))) =
           filter (placeable e) (sort (concat (map (\<lambda>ext. glob_files e (path_join f ext)) exts)))"
proof -
  let ?pdf = "path_join (case outp of None \<Rightarrow> path_join f ''pdf_output'' | Some d \<Rightarrow> d)
                (''images_'' @ now e @ ''.pdf'')"
  let ?files = "sort (concat (map (\<lambda>ext. glob_files e (path_join f ext)) exts))"
  from batch_some_images(2) [OF assms(1,2,3), of w] obtain w' where
    "w_files (snd (batch_process_folder e f outp exts w)) =
       w_files (snd (create_a4_pdf e ?files ?pdf w'))"
    by blast
  then have "written_pages (batch_process_folder e f outp exts w) =
      written_pages (create_a4_pdf e ?files ?pdf w')"
    by (simp only: written_pages_def)
  then show ?thesis
    by (simp only: placed_paths [OF assms(4,5)])
qed

text \<open>
  Claim C8. Every page of the saved document holds at most 6 entries; their slot indices
  increase along the page, their cells are \<open>(i div 2, i mod 2)\<close> for slot index \<open>i\<close> and no
  two of them share a cell; the entries drawn, read page by page, are the placeable entries
  in the order of the input list; distinct positions below 6 give distinct cells; and the
  list that \<^verbatim>\<open>batch_process_folder\<close> hands over is the sorted list of the files found, so
  the entries are drawn in sorted order.
\<close>

theorem page_invariants:
  assumes "canvas_ok e out" "save_ok e out"
  shows "(\<forall>pg \<in> set (written_pages (create_a4_pdf e image_paths out w)).
            length pg \<le> 6
            \<and> sorted_wrt (<) (map d_index pg)
            \<and> map cell_of pg = map (\<lambda>i. (i div 2, i mod 2)) (map d_index pg)
            \<and> distinct (map cell_of pg))
         \<and> map d_path (concat (written_pages (create_a4_pdf e image_paths out w))) =
             filter (placeable e) image_paths
         \<and> (\<forall>i < 6. \<forall>j < 6. i \<noteq> j \<longrightarrow> (i div 2, i mod 2) \<noteq> (j div 2, j mod (2::nat)))
         \<and> (let output_dir = (case output_folder of
                                 None \<Rightarrow> path_join input_folder ''pdf_output'' | Some d \<Rightarrow> d);
                 pdf_path = path_join output_dir (''images_'' @ now e @ ''.pdf'');
                 found = concat (map (\<lambda>ext. glob_files e (path_join input_folder ext))
                                   image_extensions)
             in isdir e input_folder \<and> makedirs_ok e output_dir \<and> found \<noteq> []
                \<and> canvas_ok e pdf_path \<and> save_ok e pdf_path \<longrightarrow>
                sorted (sort found)
                \<and> map d_path (concat (written_pages
                     (batch_process_folder e input_folder output_folder image_extensions w))) =
                   filter (placeable e) (sort found))"
proof (intro conjI ballI allI impI)
  fix pg
  assume "pg \<in> set (written_pages (create_a4_pdf e image_paths out w))"
  then obtain p where pg: "pg = drawn_items e 0 (page_images_of image_paths p)"
    using written_page_cases [OF assms] by blast
  have "length pg \<le> length (page_images_of image_paths p)"
    unfolding pg by (rule drawn_items_length)
  then have "length pg \<le> 6"
    using page_images_length [of image_paths p] by simp
  then have "length pg \<le> 6 \<and> sorted_wrt (<) (map d_index pg)
      \<and> map cell_of pg = map (\<lambda>i. (i div 2, i mod 2)) (map d_index pg)
      \<and> distinct (map cell_of pg)"
    unfolding pg
    by (intro conjI drawn_items_sorted drawn_items_cells drawn_items_cells_distinct)
  then show "length pg \<le> 6" and "sorted_wrt (<) (map d_index pg)"
    and "map cell_of pg = map (\<lambda>i. (i div 2, i mod 2)) (map d_index pg)"
    and "distinct (map cell_of pg)"
    by simp_all
next
  show "map d_path (concat (written_pages (create_a4_pdf e image_paths out w))) =
          filter (placeable e) image_paths"
    by (rule placed_paths [OF assms])
next
  fix i j :: nat
  assume "i \<noteq> j"
  then show "(i div 2, i mod 2) \<noteq> (j div 2, j mod 2)"
    using cell_inj by (auto dest: injD)
next
  show "let output_dir = (case output_folder of
                            None \<Rightarrow> path_join input_folder ''pdf_output'' | Some d \<Rightarrow> d);
            pdf_path = path_join output_dir (''images_'' @ now e @ ''.pdf'');
            found = concat (map (\<lambda>ext. glob_files e (path_join input_folder ext))
                              image_extensions)
        in isdir e input_folder \<and> makedirs_ok e output_dir \<and> found \<noteq> []
           \<and> canvas_ok e pdf_path \<and> save_ok e pdf_path \<longrightarrow>
           sorted (sort found)
           \<and> map d_path (concat (written_pages
                (batch_process_folder e input_folder output_folder image_extensions w))) =
              filter (placeable e) (sort found)"
    unfolding Let_def
  proof (intro impI conjI)
    show "sorted (sort (concat (map (\<lambda>ext. glob_files e (path_join input_folder ext))
            image_extensions)))"
      by simp
  next
    assume "isdir e input_folder
        \<and> makedirs_ok e (case output_folder of
                           None \<Rightarrow> path_join input_folder ''pdf_output'' | Some d \<Rightarrow> d)
        \<and> concat (map (\<lambda>ext. glob_files e (path_join input_folder ext)) image_extensions) \<noteq> []
        \<and> canvas_ok e (path_join (case output_folder of
                           None \<Rightarrow> path_join input_folder ''pdf_output'' | Some d \<Rightarrow> d)
                          (''images_'' @ now e @ ''.pdf''))
        \<and> save_ok e (path_join (case output_folder of
                           None \<Rightarrow> path_join input_folder ''pdf_output'' | Some d \<Rightarrow> d)
                          (''images_'' @ now e @ ''.pdf''))"
    then show "map d_path (concat (written_pages
          (batch_process_folder e input_folder output_folder image_extensions w))) =
        filter (placeable e)
          (sort (concat (map (\<lambda>ext. glob_files e (path_join input_folder ext)) image_extensions)))"
      by (intro batch_placed_paths) blast+
  qed
qed

theorem page_invariants_witness:
  "canvas_ok env_demo ''out.pdf'' \<and> save_ok env_demo ''out.pdf''
   \<and> map d_path (concat (written_pages
        (create_a4_pdf env_demo [''in/a.png'', ''in/b.png''] ''out.pdf'' world0))) = [''in/b.png'']
   \<and> isdir env_demo ''in'' \<and> makedirs_ok env_demo ''out''
   \<and> canvas_ok env_demo ''out/images_20240101_120000.pdf''
   \<and> save_ok env_demo ''out/images_20240101_120000.pdf''
   \<and> concat (map (\<lambda>ext. glob_files env_demo (path_join ''in'' ext)) default_extensions) =
        [''in/b.png'', ''in/a.png'']
   \<and> map d_path (concat (written_pages
        (batch_process_folder env_demo ''in'' (Some ''out'') default_extensions world0))) =
        [''in/b.png'']"
proof -
  have h1: "canvas_ok env_demo ''out.pdf''" and h2: "save_ok env_demo ''out.pdf''"
    by (simp_all add: env_demo_def)
  have pl: "\<not> placeable env_demo ''in/a.png''" "placeable env_demo ''in/b.png''"
    by (simp_all add: placeable_def env_demo_def)
  have found: "concat (map (\<lambda>ext. glob_files env_demo (path_join ''in'' ext)) default_extensions) =
      [''in/b.png'', ''in/a.png'']"
    by (simp add: env_demo_def default_extensions_def path_join_def)
  have sorted: "sort [''in/b.png'', ''in/a.png''] = [''in/a.png'', ''in/b.png'']"
    by code_simp
  have pdf: "path_join ''out'' (''images_'' @ now env_demo @ ''.pdf'') =
      ''out/images_20240101_120000.pdf''"
    by (simp add: env_demo_def path_join_def)
  have b: "isdir env_demo ''in''" "makedirs_ok env_demo ''out''"
    "canvas_ok env_demo ''out/images_20240101_120000.pdf''"
    "save_ok env_demo ''out/images_20240101_120000.pdf''"
    by (simp_all add: env_demo_def)
  note inst = page_invariants [OF h1 h2, where image_paths = "[''in/a.png'', ''in/b.png'']"
      and w = world0 and output_folder = "Some ''out''" and input_folder = "''in''"
      and image_extensions = default_extensions]
  from inst have "map d_path (concat (written_pages
        (create_a4_pdf env_demo [''in/a.png'', ''in/b.png''] ''out.pdf'' world0))) =
      filter (placeable env_demo) [''in/a.png'', ''in/b.png'']"
    by blast
  then have c: "map d_path (concat (written_pages
        (create_a4_pdf env_demo [''in/a.png'', ''in/b.png''] ''out.pdf'' world0))) = [''in/b.png'']"
    by (simp add: pl)
  from inst have "let output_dir = (case Some ''out'' of
                                 None \<Rightarrow> path_join ''in'' ''pdf_output'' | Some d \<Rightarrow> d);
                 pdf_path = path_join output_dir (''images_'' @ now env_demo @ ''.pdf'');
                 found = concat (map (\<lambda>ext. glob_files env_demo (path_join ''in'' ext))
                                   default_extensions)
             in isdir env_demo ''in'' \<and> makedirs_ok env_demo output_dir \<and> found \<noteq> []
                \<and> canvas_ok env_demo pdf_path \<and> save_ok env_demo pdf_path \<longrightarrow>
                sorted (sort found)
                \<and> map d_path (concat (written_pages
                     (batch_process_folder env_demo ''in'' (Some ''out'') default_extensions world0))) =
                   filter (placeable env_demo) (sort found)"
    by blast
  then have "isdir env_demo ''in'' \<and> makedirs_ok env_demo ''out''
        \<and> [''in/b.png'', ''in/a.png''] \<noteq> []
        \<and> canvas_ok env_demo ''out/images_20240101_120000.pdf''
        \<and> save_ok env_demo ''out/images_20240101_120000.pdf'' \<longrightarrow>
        sorted (sort [''in/b.png'', ''in/a.png''])
        \<and> map d_path (concat (written_pages
             (batch_process_folder env_demo ''in'' (Some ''out'') default_extensions world0))) =
           filter (placeable env_demo) (sort [''in/b.png'', ''in/a.png''])"
    by (simp only: Let_def found pdf option.case)
  with b have "map d_path (concat (written_pages
        (batch_process_folder env_demo ''in'' (Some ''out'') default_extensions world0))) =
      filter (placeable env_demo) (sort [''in/b.png'', ''in/a.png''])"
    by blast
  then have d: "map d_path (concat (written_pages
        (batch_process_folder env_demo ''in'' (Some ''out'') default_extensions world0))) =
      [''in/b.png'']"
    by (simp only: sorted) (simp add: pl)
  from h1 h2 c b found d show ?thesis
    by blast
qed

text \<open>
  Claim C9. When the input folder is a directory, the output folder can be created and no
  file matches any of the patterns, \<^verbatim>\<open>batch_process_folder\<close> returns \<^verbatim>\<open>False\<close>, writes no
  document, and its last log call is the warning that no image was found.
\<close>

theorem no_images_no_document:
  assumes "isdir e input_folder"
    and "makedirs_ok e (case output_folder of
                          None \<Rightarrow> path_join input_folder ''pdf_output'' | Some d \<Rightarrow> d)"
    and "\<forall>ext \<in> set image_extensions. glob_files e (path_join input_folder ext) = []"
  shows "fst (batch_process_folder e input_folder output_folder image_extensions w) = False
         \<and> w_files (snd (batch_process_folder e input_folder output_folder image_extensions w)) =
             w_files w
         \<and> last (w_log (snd (batch_process_folder e input_folder output_folder image_extensions w))) =
             (WARNING, NoImages)"
proof -
  from assms(3) have "concat (map (\<lambda>ext. glob_files e (path_join input_folder ext))
      image_extensions) = []"
    by simp
  from batch_no_images [OF assms(1,2) this] show ?thesis
    by simp
qed

theorem no_images_no_document_witness:
  "isdir env_no_images ''in'' \<and> makedirs_ok env_no_images ''out''
   \<and> fst (batch_process_folder env_no_images ''in'' (Some ''out'') default_extensions world0) = False
   \<and> w_files (snd (batch_process_folder env_no_images ''in'' (Some ''out'') default_extensions
        world0)) = []
   \<and> last (w_log (snd (batch_process_folder env_no_images ''in'' (Some ''out'') default_extensions
        world0))) = (WARNING, NoImages)"
proof -
  have h1: "isdir env_no_images ''in''"
    by (simp add: env_no_images_def env_demo_def)
  have h2: "makedirs_ok env_no_images (case Some ''out'' of
      None \<Rightarrow> path_join ''in'' ''pdf_output'' | Some d \<Rightarrow> d)"
    by (simp add: env_no_images_def env_demo_def)
  have h3: "\<forall>ext \<in> set default_extensions. glob_files env_no_images (path_join ''in'' ext) = []"
    by (simp add: env_no_images_def env_demo_def)
  from no_images_no_document [OF h1 h2 h3, of world0] h1 h2 show ?thesis
    by (simp add: world0_def)
qed

text \<open>
  Claim C10. When the canvas can be created and saved, \<^verbatim>\<open>create_a4_pdf\<close> returns \<^verbatim>\<open>True\<close>
  whatever happens to the single entries. The instance below has thirteen entries, every
  one of them skipped.
\<close>

theorem create_returns_true:
  assumes "canvas_ok e output_pdf" "save_ok e output_pdf"
  shows "fst (create_a4_pdf e image_paths output_pdf w) = True"
proof -
  let ?T = "total_pages_of (length image_paths)"
  let ?r = "pages_loop e image_paths ?T [0..<?T]
              (new_canvas, logging INFO (PagesPlanned ?T) w)"
  have "create_a4_pdf e image_paths output_pdf w =
      (True, logging INFO (PdfGenerated output_pdf)
               ((snd ?r)\<lparr>w_files := w_files (snd ?r) @ [(output_pdf, save (fst ?r))]\<rparr>))"
    using assms by (simp add: create_a4_pdf_def Let_def split_beta)
  then show ?thesis
    by simp
qed

theorem create_returns_true_witness:
  "canvas_ok env_all_absent ''out.pdf'' \<and> save_ok env_all_absent ''out.pdf''
   \<and> filter (placeable env_all_absent) paths13 = []
   \<and> fst (create_a4_pdf env_all_absent paths13 ''out.pdf'' world0) = True"
proof -
  have h1: "canvas_ok env_all_absent ''out.pdf''" and h2: "save_ok env_all_absent ''out.pdf''"
    by (simp_all add: env_all_absent_def env_demo_def)
  have "filter (placeable env_all_absent) paths13 = []"
    by (simp add: placeable_def env_all_absent_def env_demo_def)
  with create_returns_true [OF h1 h2, of paths13 world0] h1 h2 show ?thesis
    by simp
qed

text \<open>
  Claim C2 does not hold of the source. With two files found and a save that fails,
  \<^verbatim>\<open>create_a4_pdf\<close> logs the error and returns \<^verbatim>\<open>False\<close>, but \<^verbatim>\<open>batch_process_folder\<close>
  drops that result and returns \<^verbatim>\<open>True\<close>, with no document written.
\<close>

theorem save_failure_reported_as_success:
  "fst (create_a4_pdf env_save_fails [''in/a.png'', ''in/b.png'']
          ''out/images_20240101_120000.pdf'' world0) = False
   \<and> fst (batch_process_folder env_save_fails ''in'' (Some ''out'') default_extensions world0) = True
   \<and> w_files (snd (batch_process_folder env_save_fails ''in'' (Some ''out'') default_extensions
        world0)) = []"
  by code_simp

end
